theory Spec2Isabelle
  imports Main "HOL-Library.Word"
begin

unbundle bit_operations_syntax

section \<open>Constants of OrmerodLedSensor.cpp\<close>

text \<open>
  The target is an 8-bit AVR: \<open>uint8_t\<close> is \<open>8 word\<close>, \<open>uint16_t\<close> and
  \<open>unsigned int\<close> are \<open>16 word\<close>, \<open>unsigned long\<close> is \<open>32 word\<close>.
  Arithmetic on words wraps around as the unsigned C arithmetic does.
\<close>

type_synonym uint8_t = "8 word"
type_synonym uint16_t = "16 word"
type_synonym uint32_t = "32 word"

definition BITVAL :: "nat \<Rightarrow> uint16_t" where
  "BITVAL x = push_bit x 1"

definition PortADuetInputBit :: nat where "PortADuetInputBit = 0"
definition AdcPhototransistorChan :: nat where "AdcPhototransistorChan = 1"
definition PortADuet13KOutputBit :: nat where "PortADuet13KOutputBit = 2"
definition AdcThermistorChan :: nat where "AdcThermistorChan = 3"
definition PortASeriesResistorSenseBit :: nat where "PortASeriesResistorSenseBit = 4"
definition PortAFanControlBit :: nat where "PortAFanControlBit = 5"
definition PortANearLedBit :: nat where "PortANearLedBit = 6"
definition PortADuet10KOutputBit :: nat where "PortADuet10KOutputBit = 7"

definition PortBFarLedMask :: uint8_t where
  "PortBFarLedMask = ucast (BITVAL 0 OR BITVAL 1)"

text \<open>
  Bit numbers of the ADC multiplexer register, from the device header \<open>avr/io.h\<close>
  (not a file of this repository): on the ATtiny84, whose pins the source lists,
  MUX0 is bit 0 and MUX1 is bit 1 of ADMUX.
\<close>

definition MUX0 :: nat where "MUX0 = 0"
definition MUX1 :: nat where "MUX1 = 1"

definition interruptFreq :: uint16_t where "interruptFreq = 8000"
definition cyclesAveragedIR :: uint16_t where "cyclesAveragedIR = 8"

definition farThreshold :: uint16_t where "farThreshold = 10 * cyclesAveragedIR"
definition simpleNearThreshold :: uint16_t where "simpleNearThreshold = 30 * cyclesAveragedIR"
definition saturatedThreshold :: uint16_t where "saturatedThreshold = 870 * cyclesAveragedIR"

definition fanSampleFreq :: uint16_t where "fanSampleFreq = 16"
definition fanSampleIntervalTicks :: uint16_t where
  "fanSampleIntervalTicks = interruptFreq div fanSampleFreq"
definition fanSamplesAveraged :: uint16_t where "fanSamplesAveraged = 16"

definition thermistorConnectedThreshold1K :: uint16_t where "thermistorConnectedThreshold1K = 30"
definition thermistorOffThreshold1K :: uint16_t where "thermistorOffThreshold1K = 340"
definition thermistorOnThreshold1K :: uint16_t where "thermistorOnThreshold1K = 400"
definition thermistorConnectedThreshold4K7 :: uint16_t where "thermistorConnectedThreshold4K7 = 7"
definition thermistorOffThreshold4K7 :: uint16_t where "thermistorOffThreshold4K7 = 78"
definition thermistorOnThreshold4K7 :: uint16_t where "thermistorOnThreshold4K7 = 92"

definition fanOnSeconds :: uint16_t where "fanOnSeconds = 2"

section \<open>The device state\<close>

text \<open>
  The global variables of the program and the hardware registers it writes. Arrays are
  lists; the declared sizes (\<open>cyclesAveragedIR\<close> and \<open>fanSamplesAveraged\<close> elements)
  are part of \<open>wellFormed\<close> below.
\<close>

record state =
  nearSumIR :: uint16_t
  farSumIR :: uint16_t
  offSumIR :: uint16_t
  nearLedReadings :: "uint16_t list"
  farLedReadings :: "uint16_t list"
  offReadings :: "uint16_t list"
  nearLedIndex :: uint8_t
  farLedIndex :: uint8_t
  offIndex :: uint8_t
  fanReadings :: "uint16_t list"
  fanOffsets :: "uint16_t list"
  fanReadingSum :: uint16_t
  fanOffsetSum :: uint16_t
  thermistorConnectedThreshold :: uint16_t
  thermistorOnThreshold :: uint16_t
  thermistorOffThreshold :: uint16_t
  fanIndex :: uint8_t
  fan1Kmode :: bool
  lastFanSampleTicks :: uint16_t
  fanChangeCount :: uint8_t
  tickCounter :: uint16_t
  running :: bool
  PORTA :: uint8_t
  PORTB :: uint8_t
  ADMUX :: uint8_t

text \<open>
  Read-modify-write of an 8-bit port register with an \<open>unsigned int\<close> mask:
  \<open>P |= m\<close> and \<open>P &= ~m\<close>. The register is promoted to 16 bits, combined, and the
  result truncated to 8 bits.
\<close>

definition portSet :: "uint8_t \<Rightarrow> uint16_t \<Rightarrow> uint8_t" where
  "portSet p m = ucast (ucast p OR m)"

definition portClear :: "uint8_t \<Rightarrow> uint16_t \<Rightarrow> uint8_t" where
  "portClear p m = ucast (ucast p AND NOT m)"

text \<open>The test \<open>(P & BITVAL(b)) != 0\<close>.\<close>

definition portTest :: "uint8_t \<Rightarrow> nat \<Rightarrow> bool" where
  "portTest p b = (ucast p AND BITVAL b \<noteq> 0)"

section \<open>The timer interrupt service routine\<close>

text \<open>
  The two statements \<open>sum = sum - readings[index] + adcVal; readings[index] = adcVal\<close>
  occur eight times in the ISR. Indexing a C array out of its bounds is undefined
  behaviour: it is the result \<open>None\<close>.
\<close>

definition accumulate ::
  "uint16_t \<Rightarrow> uint16_t list \<Rightarrow> uint8_t \<Rightarrow> uint16_t \<Rightarrow> (uint16_t \<times> uint16_t list) option" where
  "accumulate acc readings index adcVal =
     (if unat index < length readings
      then Some (acc - readings ! unat index + adcVal, readings[unat index := adcVal])
      else None)"

text \<open>
  \<open>index = (index + 1) & (size - 1)\<close>: the 8-bit index is promoted, the sum and the
  mask are taken in 16 bits, the result is truncated to 8 bits.
\<close>

definition nextIndex :: "uint8_t \<Rightarrow> uint16_t \<Rightarrow> uint8_t" where
  "nextIndex index n = ucast ((ucast index + 1) AND (n - 1))"

definition updateNear :: "uint16_t \<Rightarrow> state \<Rightarrow> state option" where
  "updateNear adcVal s =
     (case accumulate (nearSumIR s) (nearLedReadings s) (nearLedIndex s) adcVal of
        None \<Rightarrow> None
      | Some (acc, readings) \<Rightarrow>
          Some (s\<lparr>nearSumIR := acc, nearLedReadings := readings,
                  nearLedIndex := nextIndex (nearLedIndex s) cyclesAveragedIR\<rparr>))"

definition updateFar :: "uint16_t \<Rightarrow> state \<Rightarrow> state option" where
  "updateFar adcVal s =
     (case accumulate (farSumIR s) (farLedReadings s) (farLedIndex s) adcVal of
        None \<Rightarrow> None
      | Some (acc, readings) \<Rightarrow>
          Some (s\<lparr>farSumIR := acc, farLedReadings := readings,
                  farLedIndex := nextIndex (farLedIndex s) cyclesAveragedIR\<rparr>))"

definition updateOff :: "uint16_t \<Rightarrow> state \<Rightarrow> state option" where
  "updateOff adcVal s =
     (case accumulate (offSumIR s) (offReadings s) (offIndex s) adcVal of
        None \<Rightarrow> None
      | Some (acc, readings) \<Rightarrow>
          Some (s\<lparr>offSumIR := acc, offReadings := readings,
                  offIndex := nextIndex (offIndex s) cyclesAveragedIR\<rparr>))"

definition updateFanReading :: "uint16_t \<Rightarrow> state \<Rightarrow> state option" where
  "updateFanReading adcVal s =
     (case accumulate (fanReadingSum s) (fanReadings s) (fanIndex s) adcVal of
        None \<Rightarrow> None
      | Some (acc, readings) \<Rightarrow>
          Some (s\<lparr>fanReadingSum := acc, fanReadings := readings,
                  fanIndex := nextIndex (fanIndex s) fanSamplesAveraged\<rparr>))"

text \<open>The offset branch writes at \<open>fanIndex\<close> and leaves the index where it is.\<close>

definition updateFanOffset :: "uint16_t \<Rightarrow> state \<Rightarrow> state option" where
  "updateFanOffset adcVal s =
     (case accumulate (fanOffsetSum s) (fanOffsets s) (fanIndex s) adcVal of
        None \<Rightarrow> None
      | Some (acc, readings) \<Rightarrow>
          Some (s\<lparr>fanOffsetSum := acc, fanOffsets := readings\<rparr>))"

definition farLedOn :: "state \<Rightarrow> state" where
  "farLedOn s = s\<lparr>PORTB := portSet (PORTB s) (ucast PortBFarLedMask)\<rparr>"

definition farLedOff :: "state \<Rightarrow> state" where
  "farLedOff s = s\<lparr>PORTB := portClear (PORTB s) (ucast PortBFarLedMask)\<rparr>"

definition nearLedOn :: "state \<Rightarrow> state" where
  "nearLedOn s = s\<lparr>PORTA := portSet (PORTA s) (BITVAL PortANearLedBit)\<rparr>"

definition nearLedOff :: "state \<Rightarrow> state" where
  "nearLedOff s = s\<lparr>PORTA := portClear (PORTA s) (BITVAL PortANearLedBit)\<rparr>"

text \<open>\<open>ADC & 1023u\<close>, and \<open>adcVal ^= 0x0200u\<close> of the 1K fan branch.\<close>

definition maskADC :: "uint16_t \<Rightarrow> uint16_t" where
  "maskADC ADC = ADC AND 1023"

definition biasFan :: "uint16_t \<Rightarrow> uint16_t" where
  "biasFan adcVal = adcVal XOR 0x0200"

text \<open>\<open>case 0\<close> of the switch.\<close>

definition isrCase0 :: "uint16_t \<Rightarrow> uint8_t \<Rightarrow> state \<Rightarrow> state option" where
  "isrCase0 adcVal locTickCounter s =
     map_option farLedOn
       (if running s then
          (if fan1Kmode s then
             (let adcVal = biasFan adcVal in
              if locTickCounter AND 0x10 = 0 then updateFanReading adcVal s
              else updateFanOffset adcVal s)
           else updateFanReading adcVal s)
        else Some s)"

text \<open>\<open>case 3, 6, 9\<close>.\<close>

definition isrCaseNear :: "uint16_t \<Rightarrow> state \<Rightarrow> state option" where
  "isrCaseNear adcVal s =
     map_option farLedOn (if running s then updateNear adcVal s else Some s)"

text \<open>\<open>case 1, 4, 7, 10\<close>.\<close>

definition isrCaseOff :: "uint16_t \<Rightarrow> state \<Rightarrow> state option" where
  "isrCaseOff adcVal s =
     map_option (nearLedOn \<circ> farLedOff) (if running s then updateOff adcVal s else Some s)"

text \<open>\<open>case 2, 5, 8\<close>.\<close>

definition isrCaseFar :: "uint16_t \<Rightarrow> state \<Rightarrow> state option" where
  "isrCaseFar adcVal s =
     map_option nearLedOff (if running s then updateFar adcVal s else Some s)"

text \<open>\<open>case 11\<close>.\<close>

definition isrCase11 :: "uint16_t \<Rightarrow> uint8_t \<Rightarrow> state \<Rightarrow> state option" where
  "isrCase11 adcVal locTickCounter s =
     map_option
       (\<lambda>s'. s'\<lparr>ADMUX :=
                 (if fan1Kmode s' then
                    (if locTickCounter AND 0x10 \<noteq> 0 then 0x13 else 0x33)
                  else ucast (BITVAL MUX1 OR BITVAL MUX0))\<rparr>)
       (isrCaseFar adcVal s)"

text \<open>\<open>case 12\<close>.\<close>

definition isrCase12 :: "uint16_t \<Rightarrow> state \<Rightarrow> state option" where
  "isrCase12 adcVal s = (if running s then updateNear adcVal s else Some s)"

text \<open>\<open>case 15\<close>.\<close>

definition isrCase15 :: "state \<Rightarrow> state" where
  "isrCase15 s = s\<lparr>ADMUX := ucast (BITVAL MUX0)\<rparr>"

text \<open>
  One firing of \<open>ISR(TIM1_COMPB_vect)\<close>. The argument is the value of the ADC data
  register at entry. The busy-wait on the hardware timer register TCNT1 reads and
  writes no program variable; the transition describes a firing that has passed it.
  The switch has no default: a value matching no case leaves the state as it is.
\<close>

definition ISR :: "uint16_t \<Rightarrow> state \<Rightarrow> state option" where
  "ISR ADC s =
     (let adcVal = maskADC ADC;
          locTickCounter = (ucast (tickCounter s) :: uint8_t);
          phase = locTickCounter AND 0x0f
      in map_option (\<lambda>s'. s'\<lparr>tickCounter := tickCounter s' + 1\<rparr>)
           (if phase = 0 then isrCase0 adcVal locTickCounter s
            else if phase = 3 \<or> phase = 6 \<or> phase = 9 then isrCaseNear adcVal s
            else if phase = 1 \<or> phase = 4 \<or> phase = 7 \<or> phase = 10 then isrCaseOff adcVal s
            else if phase = 2 \<or> phase = 5 \<or> phase = 8 then isrCaseFar adcVal s
            else if phase = 11 then isrCase11 adcVal locTickCounter s
            else if phase = 12 then isrCase12 adcVal s
            else if phase = 13 \<or> phase = 14 then Some s
            else if phase = 15 then Some (isrCase15 s)
            else Some s))"

text \<open>A sequence of firings, one per ADC value; undefined behaviour stops it.\<close>

fun runISR :: "uint16_t list \<Rightarrow> state \<Rightarrow> state option" where
  "runISR [] s = Some s"
| "runISR (ADC # rest) s = (case ISR ADC s of None \<Rightarrow> None | Some s' \<Rightarrow> runISR rest s')"

section \<open>The fan controller\<close>

text \<open>
  \<open>checkFan\<close>, run without an interrupt between its reads of the two sums.
\<close>

definition checkFan :: "state \<Rightarrow> state" where
  "checkFan s =
     (if portTest (PORTA s) PortAFanControlBit then
        (if fanReadingSum s < fanOffsetSum s then
           (let fanDiff = fanOffsetSum s - fanReadingSum s in
            if fanDiff \<ge> thermistorConnectedThreshold s \<and> fanDiff \<le> thermistorOffThreshold s then
              (if fanChangeCount s = 0
               then s\<lparr>PORTA := PORTA s AND ucast (NOT (BITVAL PortAFanControlBit))\<rparr>
               else s\<lparr>fanChangeCount := fanChangeCount s - 1\<rparr>)
            else s)
         else s)
      else
        (if fanReadingSum s \<ge> fanOffsetSum s
            \<or> fanOffsetSum s - fanReadingSum s < thermistorConnectedThreshold s
            \<or> fanOffsetSum s - fanReadingSum s \<ge> thermistorOnThreshold s
         then s\<lparr>PORTA := portSet (PORTA s) (BITVAL PortAFanControlBit),
                fanChangeCount := ucast (fanOnSeconds * fanSampleFreq - 1)\<rparr>
         else s))"

definition fanIsOn :: "state \<Rightarrow> bool" where
  "fanIsOn s = portTest (PORTA s) PortAFanControlBit"

section \<open>The sensor controller\<close>

definition SetOutputOff :: "state \<Rightarrow> state" where
  "SetOutputOff s =
     s\<lparr>PORTA := portClear (portClear (PORTA s) (BITVAL PortADuet10KOutputBit))
                            (BITVAL PortADuet13KOutputBit)\<rparr>"

definition SetOutputApproaching :: "state \<Rightarrow> state" where
  "SetOutputApproaching s =
     s\<lparr>PORTA := portSet (portClear (PORTA s) (BITVAL PortADuet10KOutputBit))
                          (BITVAL PortADuet13KOutputBit)\<rparr>"

definition SetOutputOn :: "state \<Rightarrow> state" where
  "SetOutputOn s =
     s\<lparr>PORTA := portSet (portClear (PORTA s) (BITVAL PortADuet13KOutputBit))
                          (BITVAL PortADuet10KOutputBit)\<rparr>"

definition SetOutputSaturated :: "state \<Rightarrow> state" where
  "SetOutputSaturated s =
     s\<lparr>PORTA := portSet (portSet (PORTA s) (BITVAL PortADuet10KOutputBit))
                        (BITVAL PortADuet13KOutputBit)\<rparr>"

text \<open>\<open>x = (x > locOffSum) ? x - locOffSum : 0\<close>.\<close>

definition subtractOff :: "uint16_t \<Rightarrow> uint16_t \<Rightarrow> uint16_t" where
  "subtractOff x locOffSum = (if x > locOffSum then x - locOffSum else 0)"

text \<open>
  The first half of one iteration of the loop of \<open>runIRsensorAndFan\<close>: the snapshot of
  the three sums, taken between \<open>cli()\<close> and \<open>sei()\<close>, and the choice of the output.
  The argument is the value read from the input register PINA.
\<close>

definition sensorOutput :: "uint8_t \<Rightarrow> state \<Rightarrow> state" where
  "sensorOutput PINA s =
     (let locNearSum = nearSumIR s; locFarSum = farSumIR s; locOffSum = offSumIR s in
      if locNearSum \<ge> saturatedThreshold \<or> locFarSum \<ge> saturatedThreshold
      then SetOutputSaturated s
      else
        (let locNearSum = subtractOff locNearSum locOffSum;
             locFarSum = subtractOff locFarSum locOffSum in
         if \<not> portTest PINA PortADuetInputBit then
           (if locNearSum \<ge> simpleNearThreshold then SetOutputOn s else SetOutputOff s)
         else
           (if locNearSum > locFarSum \<and> locFarSum \<ge> farThreshold then SetOutputOn s
            else if locFarSum \<ge> farThreshold
                    \<and> (ucast locNearSum :: uint32_t) * 6 \<ge> (ucast locFarSum :: uint32_t) * 5
            then SetOutputApproaching s
            else SetOutputOff s)))"

text \<open>
  The second half of the iteration: poll the fan when a sample interval has passed.
\<close>

definition pollFan :: "state \<Rightarrow> state" where
  "pollFan s =
     (let locTickCounter = tickCounter s in
      if locTickCounter - lastFanSampleTicks s \<ge> fanSampleIntervalTicks
      then (let s' = checkFan s
            in s'\<lparr>lastFanSampleTicks := lastFanSampleTicks s' + fanSampleIntervalTicks\<rparr>)
      else s)"

definition loopIteration :: "uint8_t \<Rightarrow> state \<Rightarrow> state" where
  "loopIteration PINA s = pollFan (sensorOutput PINA s)"

text \<open>
  The four output levels and the two port A lines that carry them, as the comments of
  the \<open>SetOutput\<close> functions and the interface table give them: bit 7 drives the 10K
  resistor and bit 2 the 13K resistor.
\<close>

datatype level = Off | Approaching | On | Saturated

definition outputLevel :: "uint8_t \<Rightarrow> level" where
  "outputLevel p =
     (if bit p PortADuet10KOutputBit
      then (if bit p PortADuet13KOutputBit then Saturated else On)
      else (if bit p PortADuet13KOutputBit then Approaching else Off))"

section \<open>Start-up\<close>

text \<open>
  Objects of static storage duration start as zero, and so do the port registers after
  a reset. The arrays have their declared sizes.
\<close>

definition resetState :: state where
  "resetState =
     \<lparr>nearSumIR = 0, farSumIR = 0, offSumIR = 0,
      nearLedReadings = replicate (unat cyclesAveragedIR) 0,
      farLedReadings = replicate (unat cyclesAveragedIR) 0,
      offReadings = replicate (unat cyclesAveragedIR) 0,
      nearLedIndex = 0, farLedIndex = 0, offIndex = 0,
      fanReadings = replicate (unat fanSamplesAveraged) 0,
      fanOffsets = replicate (unat fanSamplesAveraged) 0,
      fanReadingSum = 0, fanOffsetSum = 0,
      thermistorConnectedThreshold = 0, thermistorOnThreshold = 0,
      thermistorOffThreshold = 0,
      fanIndex = 0, fan1Kmode = False, lastFanSampleTicks = 0, fanChangeCount = 0,
      tickCounter = 0, running = False, PORTA = 0, PORTB = 0, ADMUX = 0\<rparr>"

text \<open>
  The loop of \<open>main\<close> that fills the fan arrays, from index \<open>i\<close> on. The index
  stays below the array size, so it is a natural number here.
\<close>

function fanInitLoop :: "nat \<Rightarrow> uint16_t \<Rightarrow> uint16_t \<Rightarrow> state \<Rightarrow> state" where
  "fanInitLoop i readingInit offsetInit s =
     (if i < unat fanSamplesAveraged
      then fanInitLoop (Suc i) readingInit offsetInit
             (s\<lparr>fanReadings := (fanReadings s)[i := readingInit],
                fanReadingSum := fanReadingSum s + readingInit,
                fanOffsets := (fanOffsets s)[i := offsetInit],
                fanOffsetSum := fanOffsetSum s + offsetInit\<rparr>)
      else s)"
  by pat_completeness auto
termination
  by (relation "measure (\<lambda>(i, r, off, s). unat fanSamplesAveraged - i)") auto

text \<open>
  \<open>main\<close> up to the call of \<open>runIRsensorAndFan\<close>. The argument is the value read
  from PINA after the power-up delay.
\<close>

definition mainInit :: "uint8_t \<Rightarrow> state" where
  "mainInit PINA =
     (let s = resetState
                \<lparr>PORTA := ucast (BITVAL PortADuetInputBit OR BITVAL PortASeriesResistorSenseBit),
                 PORTB := ucast (BITVAL 2)\<rparr>;
          s = s\<lparr>fan1Kmode := portTest PINA PortASeriesResistorSenseBit\<rparr>;
          s = (if fan1Kmode s
               then s\<lparr>thermistorConnectedThreshold := thermistorConnectedThreshold1K * fanSamplesAveraged,
                      thermistorOffThreshold := thermistorOffThreshold1K * fanSamplesAveraged,
                      thermistorOnThreshold := thermistorOnThreshold1K * fanSamplesAveraged\<rparr>
               else s\<lparr>thermistorConnectedThreshold := thermistorConnectedThreshold4K7 * fanSamplesAveraged,
                      thermistorOffThreshold := thermistorOffThreshold4K7 * fanSamplesAveraged,
                      thermistorOnThreshold := thermistorOnThreshold4K7 * fanSamplesAveraged\<rparr>);
          offsetInit = (if fan1Kmode s then 512 else 1023);
          readingInit = (if fan1Kmode s then offsetInit - thermistorConnectedThreshold1K
                         else offsetInit - thermistorConnectedThreshold4K7);
          s = s\<lparr>fanReadingSum := 0, fanOffsetSum := 0\<rparr>;
          s = fanInitLoop 0 readingInit offsetInit s
      in s\<lparr>fanIndex := 0\<rparr>)"

text \<open>The loop of \<open>runIRsensorAndFan\<close> that clears the three IR arrays.\<close>

function irInitLoop :: "nat \<Rightarrow> state \<Rightarrow> state" where
  "irInitLoop i s =
     (if i < unat cyclesAveragedIR
      then irInitLoop (Suc i)
             (s\<lparr>offReadings := (offReadings s)[i := 0],
                farLedReadings := (farLedReadings s)[i := 0],
                nearLedReadings := (nearLedReadings s)[i := 0]\<rparr>)
      else s)"
  by pat_completeness auto
termination
  by (relation "measure (\<lambda>(i, s). unat cyclesAveragedIR - i)") auto

text \<open>
  \<open>runIRsensorAndFan\<close> up to the \<open>sei()\<close> that lets the timer interrupt in.
\<close>

definition runIRsensorAndFanInit :: "state \<Rightarrow> state" where
  "runIRsensorAndFanInit s =
     (let s = irInitLoop 0 (s\<lparr>running := False\<rparr>)
      in s\<lparr>nearLedIndex := 0, farLedIndex := 0, offIndex := 0,
           nearSumIR := 0, farSumIR := 0, offSumIR := 0,
           ADMUX := ucast (BITVAL MUX0), tickCounter := 0\<rparr>)"

definition startup :: "uint8_t \<Rightarrow> state" where
  "startup PINA = runIRsensorAndFanInit (mainInit PINA)"

text \<open>
  After the first four interrupts the foreground sets \<open>running\<close> and enters its loop.
\<close>

definition startRunning :: "state \<Rightarrow> state" where
  "startRunning s = s\<lparr>running := True, lastFanSampleTicks := 0\<rparr>"

section \<open>Preemption of the foreground by the timer interrupt\<close>




section \<open>The phase table\<close>

text \<open>
  The phase of a firing is the tick counter modulo 16; bit 4 of the counter tells the two
  halves of the fan cycle apart.
\<close>

definition tickPhase :: "state \<Rightarrow> nat" where
  "tickPhase s = unat (tickCounter s) mod 16"

definition tickBit4 :: "state \<Rightarrow> bool" where
  "tickBit4 s = odd (unat (tickCounter s) div 16)"

datatype accumulator = NearAcc | FarAcc | OffAcc | FanReadingAcc | FanOffsetAcc

text \<open>
  One row of the table: the accumulator that receives the sample while \<open>running\<close> is
  set, what happens to the far and to the near LED (\<open>Some True\<close> is on, \<open>Some False\<close>
  is off, \<open>None\<close> is no change) and the value written to ADMUX, if any.
\<close>

record phaseRow =
  target :: "accumulator option"
  farLed :: "bool option"
  nearLed :: "bool option"
  mux :: "uint8_t option"

text \<open>
  The table, by phase, bit 4 of the tick and hardware variant (true for the 1K series
  resistor). It follows the specification's section 4.2, with phase 0 as the code has it:
  the offset accumulator is written only in the 1K variant.
\<close>

definition phaseTable :: "nat \<Rightarrow> bool \<Rightarrow> bool \<Rightarrow> phaseRow" where
  "phaseTable phase bit4 variant1K =
     (if phase = 0 then
        \<lparr>target = Some (if variant1K \<and> bit4 then FanOffsetAcc else FanReadingAcc),
         farLed = Some True, nearLed = None, mux = None\<rparr>
      else if phase \<in> {3, 6, 9} then
        \<lparr>target = Some NearAcc, farLed = Some True, nearLed = None, mux = None\<rparr>
      else if phase \<in> {1, 4, 7, 10} then
        \<lparr>target = Some OffAcc, farLed = Some False, nearLed = Some True, mux = None\<rparr>
      else if phase \<in> {2, 5, 8} then
        \<lparr>target = Some FarAcc, farLed = None, nearLed = Some False, mux = None\<rparr>
      else if phase = 11 then
        \<lparr>target = Some FarAcc, farLed = None, nearLed = Some False,
         mux = Some (if variant1K then (if bit4 then 0x13 else 0x33) else 0x03)\<rparr>
      else if phase = 12 then
        \<lparr>target = Some NearAcc, farLed = None, nearLed = None, mux = None\<rparr>
      else if phase = 15 then
        \<lparr>target = None, farLed = None, nearLed = None, mux = Some 0x01\<rparr>
      else
        \<lparr>target = None, farLed = None, nearLed = None, mux = None\<rparr>)"

definition pushSample :: "accumulator \<Rightarrow> uint16_t \<Rightarrow> state \<Rightarrow> state option" where
  "pushSample a v s =
     (case a of
        NearAcc \<Rightarrow> updateNear v s
      | FarAcc \<Rightarrow> updateFar v s
      | OffAcc \<Rightarrow> updateOff v s
      | FanReadingAcc \<Rightarrow> updateFanReading v s
      | FanOffsetAcc \<Rightarrow> updateFanOffset v s)"

text \<open>The sample a firing accumulates: in phase 0 of the 1K variant it is biased.\<close>

definition sampleOf :: "uint16_t \<Rightarrow> state \<Rightarrow> uint16_t" where
  "sampleOf ADC s =
     (if tickPhase s = 0 \<and> fan1Kmode s then biasFan (maskADC ADC) else maskADC ADC)"

definition routedTo :: "state \<Rightarrow> accumulator option" where
  "routedTo s =
     (if running s then target (phaseTable (tickPhase s) (tickBit4 s) (fan1Kmode s)) else None)"

definition setLeds :: "phaseRow \<Rightarrow> state \<Rightarrow> state" where
  "setLeds row s =
     (let s = (case farLed row of None \<Rightarrow> s | Some on \<Rightarrow> if on then farLedOn s else farLedOff s);
          s = (case nearLed row of None \<Rightarrow> s | Some on \<Rightarrow> if on then nearLedOn s else nearLedOff s)
      in case mux row of None \<Rightarrow> s | Some m \<Rightarrow> s\<lparr>ADMUX := m\<rparr>)"

text \<open>A firing as the table prescribes it.\<close>

definition tableISR :: "uint16_t \<Rightarrow> state \<Rightarrow> state option" where
  "tableISR ADC s =
     (let row = phaseTable (tickPhase s) (tickBit4 s) (fan1Kmode s) in
      map_option (\<lambda>s'. (setLeds row s')\<lparr>tickCounter := tickCounter s + 1\<rparr>)
        (case routedTo s of None \<Rightarrow> Some s | Some a \<Rightarrow> pushSample a (sampleOf ADC s) s))"

fun runTable :: "uint16_t list \<Rightarrow> state \<Rightarrow> state option" where
  "runTable [] s = Some s"
| "runTable (ADC # rest) s =
     (case tableISR ADC s of None \<Rightarrow> None | Some s' \<Rightarrow> runTable rest s')"

section \<open>Accumulator invariants\<close>

text \<open>
  The ghost functions \<open>irInvariant\<close> and \<open>fanInvariant\<close> of the source: every slot is
  at most 1023 and every sum is the sum of its array, taken in the natural numbers.
  \<open>wellFormed\<close> holds the declared array sizes and the invariants of the index types
  \<open>irIndex_t\<close> and \<open>fanIndex_t\<close>.
\<close>

definition bounded :: "uint16_t list \<Rightarrow> bool" where
  "bounded xs \<longleftrightarrow> (\<forall>r \<in> set xs. r \<le> 1023)"

definition exactSum :: "uint16_t \<Rightarrow> uint16_t list \<Rightarrow> bool" where
  "exactSum acc xs \<longleftrightarrow> unat acc = sum_list (map unat xs)"

definition wellFormed :: "state \<Rightarrow> bool" where
  "wellFormed s \<longleftrightarrow>
     length (nearLedReadings s) = unat cyclesAveragedIR \<and>
     length (farLedReadings s) = unat cyclesAveragedIR \<and>
     length (offReadings s) = unat cyclesAveragedIR \<and>
     length (fanReadings s) = unat fanSamplesAveraged \<and>
     length (fanOffsets s) = unat fanSamplesAveraged \<and>
     ucast (nearLedIndex s) < cyclesAveragedIR \<and>
     ucast (farLedIndex s) < cyclesAveragedIR \<and>
     ucast (offIndex s) < cyclesAveragedIR \<and>
     ucast (fanIndex s) < fanSamplesAveraged"

definition irInvariant :: "state \<Rightarrow> bool" where
  "irInvariant s \<longleftrightarrow>
     bounded (nearLedReadings s) \<and> bounded (farLedReadings s) \<and> bounded (offReadings s) \<and>
     exactSum (nearSumIR s) (nearLedReadings s) \<and>
     exactSum (farSumIR s) (farLedReadings s) \<and>
     exactSum (offSumIR s) (offReadings s)"

definition fanInvariant :: "state \<Rightarrow> bool" where
  "fanInvariant s \<longleftrightarrow>
     bounded (fanReadings s) \<and> bounded (fanOffsets s) \<and>
     exactSum (fanReadingSum s) (fanReadings s) \<and>
     exactSum (fanOffsetSum s) (fanOffsets s)"

definition isrInvariant :: "state \<Rightarrow> bool" where
  "isrInvariant s \<longleftrightarrow> wellFormed s \<and> irInvariant s \<and> fanInvariant s"

definition ringOK :: "nat \<Rightarrow> uint16_t \<Rightarrow> uint16_t list \<Rightarrow> bool" where
  "ringOK n acc xs \<longleftrightarrow> length xs = n \<and> bounded xs \<and> exactSum acc xs"

definition ringInv :: "nat \<Rightarrow> uint16_t \<Rightarrow> uint16_t list \<Rightarrow> uint8_t \<Rightarrow> bool" where
  "ringInv n acc xs i \<longleftrightarrow> ringOK n acc xs \<and> unat i < n"

section \<open>Windows and pushed samples\<close>

text \<open>
  The contents of a ring from the oldest slot to the newest, given the index of the
  oldest slot, and the last \<open>n\<close> elements of a list.
\<close>

definition window :: "nat \<Rightarrow> 'a list \<Rightarrow> 'a list" where
  "window i xs = drop i xs @ take i xs"

definition lastN :: "nat \<Rightarrow> 'a list \<Rightarrow> 'a list" where
  "lastN n xs = drop (length xs - n) xs"

text \<open>
  The two fan arrays share \<open>fanIndex\<close>, which only a reading advances. In the 1K
  variant readings and offsets alternate, by bit 4 of the tick at phase 0. When the next
  fan sample is an offset, the oldest offset is at \<open>fanIndex\<close>; when it is a reading,
  the oldest offset is one slot further on.
\<close>

definition nextFanIsOffset :: "state \<Rightarrow> bool" where
  "nextFanIsOffset s = odd ((unat (tickCounter s) + 15) div 16)"

definition offsetCursor :: "state \<Rightarrow> nat" where
  "offsetCursor s =
     (if nextFanIsOffset s then unat (fanIndex s)
      else Suc (unat (fanIndex s)) mod unat fanSamplesAveraged)"

text \<open>
  Outside the running 1K configuration nothing is ever written to \<open>fanOffsets\<close>, and
  the array is taken in its own order.
\<close>

definition windowOf :: "accumulator \<Rightarrow> state \<Rightarrow> uint16_t list" where
  "windowOf a s =
     (case a of
        NearAcc \<Rightarrow> window (unat (nearLedIndex s)) (nearLedReadings s)
      | FarAcc \<Rightarrow> window (unat (farLedIndex s)) (farLedReadings s)
      | OffAcc \<Rightarrow> window (unat (offIndex s)) (offReadings s)
      | FanReadingAcc \<Rightarrow> window (unat (fanIndex s)) (fanReadings s)
      | FanOffsetAcc \<Rightarrow>
          (if fan1Kmode s \<and> running s then window (offsetCursor s) (fanOffsets s)
           else fanOffsets s))"

definition sumOf :: "accumulator \<Rightarrow> state \<Rightarrow> uint16_t" where
  "sumOf a s =
     (case a of NearAcc \<Rightarrow> nearSumIR s | FarAcc \<Rightarrow> farSumIR s | OffAcc \<Rightarrow> offSumIR s
      | FanReadingAcc \<Rightarrow> fanReadingSum s | FanOffsetAcc \<Rightarrow> fanOffsetSum s)"

definition sizeOf :: "accumulator \<Rightarrow> nat" where
  "sizeOf a =
     (case a of FanReadingAcc \<Rightarrow> unat fanSamplesAveraged
      | FanOffsetAcc \<Rightarrow> unat fanSamplesAveraged | _ \<Rightarrow> unat cyclesAveragedIR)"

text \<open>The samples a sequence of firings pushes into one accumulator, oldest first.\<close>

fun pushedTo :: "accumulator \<Rightarrow> uint16_t list \<Rightarrow> state \<Rightarrow> uint16_t list" where
  "pushedTo a [] s = []"
| "pushedTo a (ADC # rest) s =
     (if routedTo s = Some a then [sampleOf ADC s] else []) @
     (case ISR ADC s of None \<Rightarrow> [] | Some s' \<Rightarrow> pushedTo a rest s')"

text \<open>What one firing guarantees: used as the induction step for sequences.\<close>

definition stepOK :: "uint16_t \<Rightarrow> state \<Rightarrow> state \<Rightarrow> bool" where
  "stepOK ADC s s' \<longleftrightarrow>
     isrInvariant s' \<and> running s' = running s \<and> fan1Kmode s' = fan1Kmode s \<and>
     (\<forall>a. windowOf a s' =
        (if routedTo s = Some a then tl (windowOf a s) @ [sampleOf ADC s] else windowOf a s))"

section \<open>Fan conditions, events and reachable states\<close>

text \<open>The two conditions \<open>checkFan\<close> tests, named.\<close>

definition offEligible :: "state \<Rightarrow> bool" where
  "offEligible s \<longleftrightarrow>
     fanReadingSum s < fanOffsetSum s \<and>
     thermistorConnectedThreshold s \<le> fanOffsetSum s - fanReadingSum s \<and>
     fanOffsetSum s - fanReadingSum s \<le> thermistorOffThreshold s"

definition turnOnCondition :: "state \<Rightarrow> bool" where
  "turnOnCondition s \<longleftrightarrow>
     fanReadingSum s \<ge> fanOffsetSum s \<or>
     fanOffsetSum s - fanReadingSum s < thermistorConnectedThreshold s \<or>
     fanOffsetSum s - fanReadingSum s \<ge> thermistorOnThreshold s"

text \<open>
  What happens to the device, in order: a firing of the ISR, the output decision of a
  loop iteration, an invocation of \<open>checkFan\<close>.
\<close>

datatype event = Interrupt uint16_t | Sensor uint8_t | CheckFan

fun runEvents :: "event list \<Rightarrow> state \<Rightarrow> state option" where
  "runEvents [] s = Some s"
| "runEvents (Interrupt ADC # rest) s =
     (case ISR ADC s of None \<Rightarrow> None | Some s' \<Rightarrow> runEvents rest s')"
| "runEvents (Sensor PINA # rest) s = runEvents rest (sensorOutput PINA s)"
| "runEvents (CheckFan # rest) s = runEvents rest (checkFan s)"

definition checks :: "event list \<Rightarrow> nat" where
  "checks es = length (filter (\<lambda>e. e = CheckFan) es)"

text \<open>
  The states the program reaches: the state in which the interrupt is first let in,
  then firings of the ISR, the start of the loop once four ticks have passed, and the
  two halves of a loop iteration.
\<close>

inductive reachable :: "state \<Rightarrow> bool" where
  boot: "reachable (startup PINA)"
| interrupt: "reachable s \<Longrightarrow> ISR ADC s = Some s' \<Longrightarrow> reachable s'"
| start: "reachable s \<Longrightarrow> \<not> tickCounter s < 4 \<Longrightarrow> reachable (startRunning s)"
| sensor: "reachable s \<Longrightarrow> running s \<Longrightarrow> reachable (sensorOutput PINA s)"
| poll: "reachable s \<Longrightarrow> running s \<Longrightarrow> reachable (pollFan s)"

section \<open>Example states\<close>

text \<open>
  A snapshot with near 150, far 150 and off 50: the differential mode reports
  Approaching, the simple mode reports Off.
\<close>

definition approachingExample :: state where
  "approachingExample = resetState\<lparr>nearSumIR := 150, farSumIR := 150, offSumIR := 50\<rparr>"

text \<open>
  The 4K7 variant after start-up, with a disconnected thermistor: every reading is 1023.
\<close>

definition disconnectedExample :: state where
  "disconnectedExample =
     (startup 0)\<lparr>fanReadings := replicate 16 1023, fanReadingSum := 16368\<rparr>"

text \<open>The 1K variant when the loop starts, after the first four interrupts.\<close>

definition settled :: state where
  "settled = (case runISR [0, 0, 0, 0] (startup 0x10) of
                Some s \<Rightarrow> startRunning s | None \<Rightarrow> resetState)"

definition exampleADC :: "uint16_t list" where
  "exampleADC = map (\<lambda>k. of_nat (37 * k)) [0..<40]"

definition afterRun :: state where
  "afterRun = (case runISR exampleADC settled of Some s \<Rightarrow> s | None \<Rightarrow> resetState)"

text \<open>The 4K7 variant, running, at phase 0 in either half of the fan cycle.\<close>

definition gatingExample0 :: state where
  "gatingExample0 = startRunning (startup 0)"

definition gatingExample16 :: state where
  "gatingExample16 = (startRunning (startup 0))\<lparr>tickCounter := 16\<rparr>"

definition cycleADC :: "uint16_t list" where
  "cycleADC = [100, 150, 200, 250, 300, 350, 400, 450, 500, 550, 600, 650, 700, 750, 800, 850]"

text \<open>
  The 4K7 variant with a hot thermistor and the fan off; one more reading of 1023
  brings the difference of the sums into the range where the fan may be switched off.
\<close>

definition hotExample :: state where
  "hotExample =
     (startRunning (startup 0))
       \<lparr>fanReadings := 700 # replicate 15 940, fanReadingSum := 14800\<rparr>"

definition coolingEvents :: "event list" where
  "coolingEvents = [Interrupt 1023]"

definition heldExample :: state where
  "heldExample = (case runEvents coolingEvents (checkFan hotExample) of
                    Some s \<Rightarrow> s | None \<Rightarrow> resetState)"


section \<open>Port register lemmas\<close>

lemma bit_BITVAL: "bit (BITVAL k) n \<longleftrightarrow> n = k \<and> k < 16"
  by (auto simp: BITVAL_def bit_simps)

lemma word_zero_iff: "(w :: 'a::len word) = 0 \<longleftrightarrow> (\<forall>n. \<not> bit w n)"
  using bit_eq_iff[of w 0] by (auto dest: bit_imp_le_length)

lemma bit_portSet: "bit (portSet p (BITVAL k)) n \<longleftrightarrow> bit p n \<or> (n = k \<and> k < 8)"
  by (auto simp: portSet_def bit_simps bit_BITVAL dest: bit_imp_le_length)

lemma bit_portClear: "bit (portClear p (BITVAL k)) n \<longleftrightarrow> bit p n \<and> n \<noteq> k"
  by (auto simp: portClear_def bit_simps bit_BITVAL dest: bit_imp_le_length)

lemma bit_portAndNot:
  "bit (p AND ucast (NOT (BITVAL k)) :: uint8_t) n \<longleftrightarrow> bit p n \<and> n \<noteq> k"
  by (auto simp: bit_simps bit_BITVAL dest: bit_imp_le_length)

lemma portTest_bit: "k < 8 \<Longrightarrow> portTest p k \<longleftrightarrow> bit p k"
  by (auto simp: portTest_def word_zero_iff bit_simps bit_BITVAL)

lemmas portBits = PortADuetInputBit_def PortADuet13KOutputBit_def PortAFanControlBit_def
  PortANearLedBit_def PortADuet10KOutputBit_def

lemma outputLevel_Saturated: "outputLevel (PORTA (SetOutputSaturated s)) = Saturated"
  by (simp add: outputLevel_def SetOutputSaturated_def bit_portSet portBits)

lemma outputLevel_On: "outputLevel (PORTA (SetOutputOn s)) = On"
  by (simp add: outputLevel_def SetOutputOn_def bit_portSet bit_portClear portBits)

lemma outputLevel_Off: "outputLevel (PORTA (SetOutputOff s)) = Off"
  by (simp add: outputLevel_def SetOutputOff_def bit_portSet bit_portClear portBits)

lemma outputLevel_Approaching: "outputLevel (PORTA (SetOutputApproaching s)) = Approaching"
  by (simp add: outputLevel_def SetOutputApproaching_def bit_portSet bit_portClear portBits)

lemma fanIsOn_bit: "fanIsOn s \<longleftrightarrow> bit (PORTA s) PortAFanControlBit"
  by (simp add: fanIsOn_def portTest_bit PortAFanControlBit_def)

lemma portTest_checkFan_other:
  "k \<noteq> PortAFanControlBit \<Longrightarrow> bit (PORTA (checkFan s)) k = bit (PORTA s) k"
  by (auto simp: checkFan_def Let_def bit_portSet bit_portAndNot)

lemma outputLevel_pollFan: "outputLevel (PORTA (pollFan s)) = outputLevel (PORTA s)"
  by (simp add: pollFan_def Let_def outputLevel_def portTest_checkFan_other portBits)

section \<open>Word arithmetic of the tick counter and the indices\<close>

lemma unat_and_mask: "unat (w AND mask n) = unat w mod 2 ^ n"
proof -
  have "unat (w AND mask n) = take_bit n (unat w)"
    by (simp only: take_bit_eq_mask [symmetric] unsigned_take_bit_eq)
  then show ?thesis
    by (simp only: take_bit_eq_mod)
qed

lemma unat_and_15: "unat ((w :: 'a::len word) AND 15) = unat w mod 16"
  using unat_and_mask [of w 4] by (simp add: mask_eq_exp_minus_1)

lemma unat_and_7: "unat ((w :: 'a::len word) AND 7) = unat w mod 8"
  using unat_and_mask [of w 3] by (simp add: mask_eq_exp_minus_1)

lemma unat_phase: "unat ((ucast (t :: uint16_t) :: uint8_t) AND 0x0f) = unat t mod 16"
  by (simp add: unat_and_15 unsigned_ucast_eq take_bit_eq_mod mod_mod_cancel)

lemma phase_eq:
  assumes "k < 16"
  shows "((ucast (tickCounter s) :: uint8_t) AND 0x0f = of_nat k) \<longleftrightarrow> tickPhase s = k"
proof -
  have "unat (of_nat k :: uint8_t) = k"
    using assms by (simp add: unat_of_nat)
  then show ?thesis
    unfolding tickPhase_def unat_phase [symmetric] by (simp add: word_unat_eq_iff)
qed

lemmas phase_simps =
  phase_eq [of 0, simplified] phase_eq [of 1, simplified] phase_eq [of 2, simplified]
  phase_eq [of 3, simplified] phase_eq [of 4, simplified] phase_eq [of 5, simplified]
  phase_eq [of 6, simplified] phase_eq [of 7, simplified] phase_eq [of 8, simplified]
  phase_eq [of 9, simplified] phase_eq [of 10, simplified] phase_eq [of 11, simplified]
  phase_eq [of 12, simplified] phase_eq [of 13, simplified] phase_eq [of 14, simplified]
  phase_eq [of 15, simplified]


lemma bit4_eq: "((ucast (tickCounter s) :: uint8_t) AND 0x10 = 0) \<longleftrightarrow> \<not> tickBit4 s"
proof -
  have "((ucast (tickCounter s) :: uint8_t) AND 0x10 = 0)
      \<longleftrightarrow> \<not> bit (ucast (tickCounter s) :: uint8_t) 4"
    using and_exp_eq_0_iff_not_bit [of "ucast (tickCounter s) :: uint8_t" 4] by simp
  also have "\<dots> \<longleftrightarrow> \<not> bit (tickCounter s) 4"
    by (simp add: bit_simps)
  also have "\<dots> \<longleftrightarrow> \<not> bit (unat (tickCounter s)) 4"
    by (simp add: bit_unsigned_iff)
  also have "\<dots> \<longleftrightarrow> \<not> tickBit4 s"
    by (simp add: bit_iff_odd tickBit4_def)
  finally show ?thesis .
qed

lemma tickPhase_and: "tickPhase s = unat (tickCounter s AND 0x0f)"
  by (simp add: tickPhase_def unat_and_15)

lemma tickBit4_bit: "tickBit4 s = bit (tickCounter s) 4"
proof -
  have "bit (tickCounter s) 4 = bit (unat (tickCounter s)) 4"
    by (simp add: bit_unsigned_iff)
  then show ?thesis
    by (simp add: tickBit4_def bit_iff_odd)
qed

lemma unat_ucast_succ: "unat (ucast (i :: uint8_t) + 1 :: uint16_t) = unat i + 1"
  by (simp add: unat_word_ariths unsigned_ucast_eq take_bit_eq_mod)
    (use unsigned_less [of i, where 'a = nat] in simp)

lemma unat_nextIndex8: "unat (nextIndex i 8) = (unat i + 1) mod 8"
proof -
  have "unat ((ucast i + 1 :: uint16_t) AND 7) = (unat i + 1) mod 8"
    by (simp only: unat_and_7 unat_ucast_succ)
  moreover have "(unat i + 1) mod 8 < 256"
    by (rule less_trans [OF mod_less_divisor]) simp_all
  ultimately show ?thesis
    by (simp add: nextIndex_def unsigned_ucast_eq take_bit_eq_mod)
qed

lemma unat_nextIndex16: "unat (nextIndex i 16) = (unat i + 1) mod 16"
proof -
  have "unat ((ucast i + 1 :: uint16_t) AND 15) = (unat i + 1) mod 16"
    by (simp only: unat_and_15 unat_ucast_succ)
  moreover have "(unat i + 1) mod 16 < 256"
    by (rule less_trans [OF mod_less_divisor]) simp_all
  ultimately show ?thesis
    by (simp add: nextIndex_def unsigned_ucast_eq take_bit_eq_mod)
qed

lemma index_lt: "(ucast (i :: uint8_t) < (n :: uint16_t)) \<longleftrightarrow> unat i < unat n"
  by (simp add: word_less_nat_alt unsigned_ucast_eq take_bit_eq_mod)
    (use unsigned_less [of i, where 'a = nat] in simp)

lemma maskADC_le: "maskADC ADC \<le> 1023"
  unfolding maskADC_def by (rule word_and_le1)

lemma biasFan_le:
  assumes "v \<le> 1023"
  shows "biasFan v \<le> 1023"
proof -
  have m: "(1023 :: uint16_t) = mask 10"
    by (simp add: mask_eq_exp_minus_1)
  from assms have "v < 2 ^ 10"
    by (simp add: word_less_nat_alt word_le_nat_alt)
  then have a: "v AND mask 10 = v"
    by (rule less_mask_eq)
  have b: "(0x0200 :: uint16_t) AND mask 10 = 0x0200"
    by (simp add: mask_eq_exp_minus_1)
  have "(v XOR 0x0200) AND mask 10 = v XOR 0x0200"
    by (simp only: bit.conj_xor_distrib2 a b)
  then have "biasFan v = (v XOR 0x0200) AND mask 10"
    by (simp only: biasFan_def)
  then show ?thesis
    unfolding m by (simp only: word_and_le1)
qed

lemma sampleOf_le: "sampleOf ADC s \<le> 1023"
  by (simp add: sampleOf_def maskADC_le biasFan_le)

lemma next_phase0:
  "tickPhase s = 0 \<Longrightarrow> nextFanIsOffset s = tickBit4 s"
  unfolding tickPhase_def nextFanIsOffset_def tickBit4_def by (simp add: div_add1_eq)

lemma next_after:
  assumes "tickCounter s' = tickCounter s + 1"
  shows "nextFanIsOffset s' = (if tickPhase s = 0 then \<not> tickBit4 s else nextFanIsOffset s)"
proof -
  let ?n = "unat (tickCounter s)"
  have lt: "?n < 65536"
    using unsigned_less [of "tickCounter s", where 'a = nat] by simp
  have s': "unat (tickCounter s') = (?n + 1) mod 65536"
    by (simp add: assms unat_word_ariths)
  show ?thesis
  proof (cases "?n = 65535")
    case True
    then show ?thesis
      by (simp add: s' tickPhase_def nextFanIsOffset_def)
  next
    case False
    with lt have "unat (tickCounter s') = ?n + 1"
      by (simp add: s')
    moreover have "(?n + 1 + 15) div 16 = ?n div 16 + 1"
      by (simp add: div_add1_eq)
    ultimately have a: "nextFanIsOffset s' = odd (?n div 16 + 1)"
      by (simp only: nextFanIsOffset_def)
    show ?thesis
    proof (cases "?n mod 16 = 0")
      case True
      then show ?thesis by (simp add: a tickPhase_def tickBit4_def)
    next
      case False
      then have "(?n mod 16 + 15) div 16 = 1"
        by (intro div_nat_eqI) simp_all
      moreover have "(?n + 15) div 16 = ?n div 16 + 15 div 16 + (?n mod 16 + 15 mod 16) div 16"
        by (rule div_add1_eq)
      ultimately have "(?n + 15) div 16 = ?n div 16 + 1"
        by simp
      then have "nextFanIsOffset s = odd (?n div 16 + 1)"
        by (simp only: nextFanIsOffset_def)
      with False show ?thesis
        by (simp add: a tickPhase_def)
    qed
  qed
qed

section \<open>Rings\<close>

lemma length_window [simp]: "length (window i xs) = length xs"
  by (simp add: window_def)

lemma window_push:
  assumes "i < length xs"
  shows "window (Suc i mod length xs) (xs[i := v]) = tl (window i xs) @ [v]"
proof (cases "Suc i = length xs")
  case True
  then have "drop i xs = [xs ! i]"
    by (metis Cons_nth_drop_Suc assms drop_all order_refl)
  with True show ?thesis
    by (simp add: window_def upd_conv_take_nth_drop)
next
  case False
  with assms have lt: "Suc i < length xs" by simp
  have "drop i xs = xs ! i # drop (Suc i) xs"
    using assms by (simp add: Cons_nth_drop_Suc)
  with lt show ?thesis
    by (simp add: window_def take_Suc_conv_app_nth drop_update_cancel)
qed

lemma sum_list_window:
  fixes f :: "'a \<Rightarrow> nat"
  shows "sum_list (map f (window i xs)) = sum_list (map f xs)"
proof -
  have "sum_list (map f (window i xs)) = sum_list (map f (take i xs @ drop i xs))"
    unfolding window_def by (simp add: add.commute del: append_take_drop_id)
  then show ?thesis
    by simp
qed

lemma lastN_push: "length w = n \<Longrightarrow> 0 < n \<Longrightarrow> lastN n (w @ [v]) = tl w @ [v]"
  by (cases w) (simp_all add: lastN_def)

lemma lastN_lastN: "lastN n (lastN n xs @ ys) = lastN n (xs @ ys)"
  by (simp add: lastN_def) (cases "length xs \<le> n"; simp add: add.commute)

lemma lastN_same: "length xs = n \<Longrightarrow> lastN n xs = xs"
  by (simp add: lastN_def)

lemma lastN_append_ge: "n \<le> length ys \<Longrightarrow> lastN n (xs @ ys) = lastN n ys"
  by (simp add: lastN_def)

lemma bounded_sum: "bounded xs \<Longrightarrow> sum_list (map unat xs) \<le> 1023 * length xs"
  by (induction xs) (auto simp: bounded_def word_le_nat_alt)

lemma bounded_update: "bounded xs \<Longrightarrow> v \<le> 1023 \<Longrightarrow> bounded (xs[k := v])"
  unfolding bounded_def by (metis insert_iff set_update_subset_insert subsetD)

lemma accumulate_ok:
  assumes ok: "ringOK n acc xs" and n: "n \<le> 16" and i: "unat i < n" and v: "v \<le> 1023"
  shows "accumulate acc xs i v = Some (acc - xs ! unat i + v, xs[unat i := v])"
    and "ringOK n (acc - xs ! unat i + v) (xs[unat i := v])"
proof -
  let ?k = "unat i"
  from ok have len: "length xs = n" and b: "bounded xs"
    and e: "unat acc = sum_list (map unat xs)"
    by (simp_all add: ringOK_def exactSum_def)
  show "accumulate acc xs i v = Some (acc - xs ! ?k + v, xs[?k := v])"
    using i len by (simp add: accumulate_def)
  have k: "?k < length (map unat xs)" using i len by simp
  have old: "unat (xs ! ?k) \<le> unat acc"
    unfolding e using elem_le_sum_list [OF k] k by simp
  have b': "bounded (xs[?k := v])"
    using b v by (rule bounded_update)
  have new: "sum_list (map unat (xs[?k := v])) = unat acc - unat (xs ! ?k) + unat v"
    using sum_list_update [OF k, of "unat v"] old k by (simp add: map_update e)
  have "sum_list (map unat (xs[?k := v])) \<le> 1023 * n"
    using bounded_sum [OF b'] len by simp
  with n new have small: "unat acc - unat (xs ! ?k) + unat v < 2 ^ 16"
    by simp
  have "unat (acc - xs ! ?k) = unat acc - unat (xs ! ?k)"
    using old by (simp add: unat_sub word_le_nat_alt)
  with small have "unat (acc - xs ! ?k + v) = unat acc - unat (xs ! ?k) + unat v"
    by (simp add: unat_add_lem [THEN iffD1])
  with new b' len show "ringOK n (acc - xs ! ?k + v) (xs[?k := v])"
    by (simp add: ringOK_def exactSum_def)
qed

lemma ringOK_le: "ringOK n acc xs \<Longrightarrow> unat acc \<le> 1023 * n"
  using bounded_sum [of xs] by (simp add: ringOK_def exactSum_def)

lemma ringInv_push:
  assumes "ringInv n acc xs i" and "n \<le> 16" and "v \<le> 1023"
    and "unat (nextIndex i (of_nat n)) = Suc (unat i) mod n"
  shows "accumulate acc xs i v = Some (acc - xs ! unat i + v, xs[unat i := v])"
    and "ringInv n (acc - xs ! unat i + v) (xs[unat i := v]) (nextIndex i (of_nat n))"
    and "window (unat (nextIndex i (of_nat n))) (xs[unat i := v]) = tl (window (unat i) xs) @ [v]"
proof -
  from assms(1) have ok: "ringOK n acc xs" and i: "unat i < n"
    by (simp_all add: ringInv_def)
  then have len: "length xs = n" by (simp add: ringOK_def)
  show "accumulate acc xs i v = Some (acc - xs ! unat i + v, xs[unat i := v])"
    using ok assms(2) i assms(3) by (rule accumulate_ok)
  have "ringOK n (acc - xs ! unat i + v) (xs[unat i := v])"
    using ok assms(2) i assms(3) by (rule accumulate_ok)
  moreover have "Suc (unat i) mod n < n"
    using i by simp
  ultimately show "ringInv n (acc - xs ! unat i + v) (xs[unat i := v]) (nextIndex i (of_nat n))"
    by (simp add: ringInv_def assms(4))
  show "window (unat (nextIndex i (of_nat n))) (xs[unat i := v]) = tl (window (unat i) xs) @ [v]"
    using window_push [of "unat i" xs v] i len by (simp add: assms(4))
qed

lemmas ringInv_push8 = ringInv_push [where n = 8, simplified, OF _ _ unat_nextIndex8 [simplified]]

lemmas ringInv_push16 = ringInv_push [where n = 16, simplified, OF _ _ unat_nextIndex16 [simplified]]

lemma isrInvariant_rings:
  "isrInvariant s \<longleftrightarrow>
     ringInv 8 (nearSumIR s) (nearLedReadings s) (nearLedIndex s) \<and>
     ringInv 8 (farSumIR s) (farLedReadings s) (farLedIndex s) \<and>
     ringInv 8 (offSumIR s) (offReadings s) (offIndex s) \<and>
     ringInv 16 (fanReadingSum s) (fanReadings s) (fanIndex s) \<and>
     ringOK 16 (fanOffsetSum s) (fanOffsets s)"
  unfolding isrInvariant_def wellFormed_def irInvariant_def fanInvariant_def ringInv_def
    ringOK_def index_lt
  by (auto simp: cyclesAveragedIR_def fanSamplesAveraged_def)

section \<open>The ISR follows the phase table\<close>

lemma ISR_phase:
  "ISR ADC s =
     map_option (\<lambda>s'. s'\<lparr>tickCounter := tickCounter s' + 1\<rparr>)
       (if tickPhase s = 0 then isrCase0 (maskADC ADC) (ucast (tickCounter s)) s
        else if tickPhase s = 3 \<or> tickPhase s = 6 \<or> tickPhase s = 9
          then isrCaseNear (maskADC ADC) s
        else if tickPhase s = 1 \<or> tickPhase s = 4 \<or> tickPhase s = 7 \<or> tickPhase s = 10
          then isrCaseOff (maskADC ADC) s
        else if tickPhase s = 2 \<or> tickPhase s = 5 \<or> tickPhase s = 8
          then isrCaseFar (maskADC ADC) s
        else if tickPhase s = 11 then isrCase11 (maskADC ADC) (ucast (tickCounter s)) s
        else if tickPhase s = 12 then isrCase12 (maskADC ADC) s
        else if tickPhase s = 13 \<or> tickPhase s = 14 then Some s
        else if tickPhase s = 15 then Some (isrCase15 s)
        else Some s)"
  by (simp add: ISR_def Let_def phase_simps)

lemma muxValues:
  "ucast (BITVAL MUX1 OR BITVAL MUX0) = (0x03 :: uint8_t)" "ucast (BITVAL MUX0) = (0x01 :: uint8_t)"
  by (simp_all add: BITVAL_def MUX0_def MUX1_def)

lemma update_tick:
  "updateNear v s = Some s' \<Longrightarrow> tickCounter s' = tickCounter s \<and> fan1Kmode s' = fan1Kmode s"
  "updateFar v s = Some s' \<Longrightarrow> tickCounter s' = tickCounter s \<and> fan1Kmode s' = fan1Kmode s"
  "updateOff v s = Some s' \<Longrightarrow> tickCounter s' = tickCounter s \<and> fan1Kmode s' = fan1Kmode s"
  "updateFanReading v s = Some s' \<Longrightarrow> tickCounter s' = tickCounter s \<and> fan1Kmode s' = fan1Kmode s"
  "updateFanOffset v s = Some s' \<Longrightarrow> tickCounter s' = tickCounter s \<and> fan1Kmode s' = fan1Kmode s"
  by (auto simp: updateNear_def updateFar_def updateOff_def updateFanReading_def
      updateFanOffset_def split: option.splits)

lemma map_option_eqI:
  "(\<And>y. x = Some y \<Longrightarrow> f y = g y) \<Longrightarrow> map_option f x = map_option g x"
  by (cases x) simp_all

lemmas ledDefs = setLeds_def farLedOn_def farLedOff_def nearLedOn_def nearLedOff_def

lemma table_phase0:
  assumes "tickPhase s = 0"
  shows "map_option (\<lambda>s'. s'\<lparr>tickCounter := tickCounter s' + 1\<rparr>)
           (isrCase0 (maskADC ADC) (ucast (tickCounter s)) s) = tableISR ADC s"
proof -
  have row: "phaseTable (tickPhase s) (tickBit4 s) (fan1Kmode s) =
      \<lparr>target = Some (if fan1Kmode s \<and> tickBit4 s then FanOffsetAcc else FanReadingAcc),
       farLed = Some True, nearLed = None, mux = None\<rparr>"
    using assms by (simp add: phaseTable_def)
  show ?thesis
    unfolding tableISR_def routedTo_def row Let_def isrCase0_def
    by (cases "running s"; cases "fan1Kmode s"; cases "tickBit4 s")
      (auto simp: sampleOf_def assms pushSample_def ledDefs bit4_eq option.map_comp
        dest: update_tick intro!: map_option_eqI)
qed

lemma table_phaseNear:
  assumes "tickPhase s = 3 \<or> tickPhase s = 6 \<or> tickPhase s = 9"
  shows "map_option (\<lambda>s'. s'\<lparr>tickCounter := tickCounter s' + 1\<rparr>)
           (isrCaseNear (maskADC ADC) s) = tableISR ADC s"
proof -
  have row: "phaseTable (tickPhase s) (tickBit4 s) (fan1Kmode s) =
      \<lparr>target = Some NearAcc, farLed = Some True, nearLed = None, mux = None\<rparr>"
    using assms by (auto simp: phaseTable_def)
  have smp: "sampleOf ADC s = maskADC ADC"
    using assms by (auto simp: sampleOf_def)
  show ?thesis
    unfolding tableISR_def routedTo_def row Let_def isrCaseNear_def
    by (cases "running s"; cases "fan1Kmode s"; cases "tickBit4 s")
      (auto simp: smp pushSample_def ledDefs bit4_eq muxValues option.map_comp
        dest: update_tick intro!: map_option_eqI)
qed

lemma table_phaseOff:
  assumes "tickPhase s = 1 \<or> tickPhase s = 4 \<or> tickPhase s = 7 \<or> tickPhase s = 10"
  shows "map_option (\<lambda>s'. s'\<lparr>tickCounter := tickCounter s' + 1\<rparr>)
           (isrCaseOff (maskADC ADC) s) = tableISR ADC s"
proof -
  have row: "phaseTable (tickPhase s) (tickBit4 s) (fan1Kmode s) =
      \<lparr>target = Some OffAcc, farLed = Some False, nearLed = Some True, mux = None\<rparr>"
    using assms by (auto simp: phaseTable_def)
  have smp: "sampleOf ADC s = maskADC ADC"
    using assms by (auto simp: sampleOf_def)
  show ?thesis
    unfolding tableISR_def routedTo_def row Let_def isrCaseOff_def
    by (cases "running s"; cases "fan1Kmode s"; cases "tickBit4 s")
      (auto simp: smp pushSample_def ledDefs bit4_eq muxValues option.map_comp
        dest: update_tick intro!: map_option_eqI)
qed

lemma table_phaseFar:
  assumes "tickPhase s = 2 \<or> tickPhase s = 5 \<or> tickPhase s = 8"
  shows "map_option (\<lambda>s'. s'\<lparr>tickCounter := tickCounter s' + 1\<rparr>)
           (isrCaseFar (maskADC ADC) s) = tableISR ADC s"
proof -
  have row: "phaseTable (tickPhase s) (tickBit4 s) (fan1Kmode s) =
      \<lparr>target = Some FarAcc, farLed = None, nearLed = Some False, mux = None\<rparr>"
    using assms by (auto simp: phaseTable_def)
  have smp: "sampleOf ADC s = maskADC ADC"
    using assms by (auto simp: sampleOf_def)
  show ?thesis
    unfolding tableISR_def routedTo_def row Let_def isrCaseFar_def
    by (cases "running s"; cases "fan1Kmode s"; cases "tickBit4 s")
      (auto simp: smp pushSample_def ledDefs bit4_eq muxValues option.map_comp
        dest: update_tick intro!: map_option_eqI)
qed

lemma table_phase11:
  assumes "tickPhase s = 11"
  shows "map_option (\<lambda>s'. s'\<lparr>tickCounter := tickCounter s' + 1\<rparr>)
           (isrCase11 (maskADC ADC) (ucast (tickCounter s)) s) = tableISR ADC s"
proof -
  have row: "phaseTable (tickPhase s) (tickBit4 s) (fan1Kmode s) =
      \<lparr>target = Some FarAcc, farLed = None, nearLed = Some False,
       mux = Some (if fan1Kmode s then (if tickBit4 s then 0x13 else 0x33) else 0x03)\<rparr>"
    using assms by (auto simp: phaseTable_def)
  have smp: "sampleOf ADC s = maskADC ADC"
    using assms by (auto simp: sampleOf_def)
  show ?thesis
    unfolding tableISR_def routedTo_def row Let_def isrCase11_def isrCaseFar_def
    by (cases "running s"; cases "fan1Kmode s"; cases "tickBit4 s")
      (auto simp: smp pushSample_def ledDefs bit4_eq muxValues option.map_comp
        dest: update_tick intro!: map_option_eqI)
qed

lemma table_phase12:
  assumes "tickPhase s = 12"
  shows "map_option (\<lambda>s'. s'\<lparr>tickCounter := tickCounter s' + 1\<rparr>)
           (isrCase12 (maskADC ADC) s) = tableISR ADC s"
proof -
  have row: "phaseTable (tickPhase s) (tickBit4 s) (fan1Kmode s) =
      \<lparr>target = Some NearAcc, farLed = None, nearLed = None, mux = None\<rparr>"
    using assms by (auto simp: phaseTable_def)
  have smp: "sampleOf ADC s = maskADC ADC"
    using assms by (auto simp: sampleOf_def)
  show ?thesis
    unfolding tableISR_def routedTo_def row Let_def isrCase12_def
    by (cases "running s"; cases "fan1Kmode s"; cases "tickBit4 s")
      (auto simp: smp pushSample_def ledDefs bit4_eq muxValues option.map_comp
        dest: update_tick intro!: map_option_eqI)
qed

lemma table_phase15:
  assumes "tickPhase s = 15"
  shows "map_option (\<lambda>s'. s'\<lparr>tickCounter := tickCounter s' + 1\<rparr>)
           (Some (isrCase15 s)) = tableISR ADC s"
proof -
  have row: "phaseTable (tickPhase s) (tickBit4 s) (fan1Kmode s) =
      \<lparr>target = None, farLed = None, nearLed = None, mux = Some 0x01\<rparr>"
    using assms by (auto simp: phaseTable_def)
  have smp: "sampleOf ADC s = maskADC ADC"
    using assms by (auto simp: sampleOf_def)
  show ?thesis
    unfolding tableISR_def routedTo_def row Let_def isrCase15_def
    by (cases "running s"; cases "fan1Kmode s"; cases "tickBit4 s")
      (auto simp: smp pushSample_def ledDefs bit4_eq muxValues option.map_comp
        dest: update_tick intro!: map_option_eqI)
qed

lemma table_phaseIdle:
  assumes "tickPhase s \<notin> {0, 1, 2, 3, 4, 5, 6, 7, 8, 9, 10, 11, 12, 15}"
  shows "map_option (\<lambda>s'. s'\<lparr>tickCounter := tickCounter s' + 1\<rparr>)
           (Some s) = tableISR ADC s"
proof -
  have row: "phaseTable (tickPhase s) (tickBit4 s) (fan1Kmode s) =
      \<lparr>target = None, farLed = None, nearLed = None, mux = None\<rparr>"
    using assms by (auto simp: phaseTable_def)
  have smp: "sampleOf ADC s = maskADC ADC"
    using assms by (auto simp: sampleOf_def)
  show ?thesis
    unfolding tableISR_def routedTo_def row Let_def isrCase15_def
    by (cases "running s"; cases "fan1Kmode s"; cases "tickBit4 s")
      (auto simp: smp pushSample_def ledDefs bit4_eq muxValues option.map_comp
        dest: update_tick intro!: map_option_eqI)
qed

lemma ISR_table: "ISR ADC s = tableISR ADC s"
proof -
  consider "tickPhase s = 0"
    | "tickPhase s = 3 \<or> tickPhase s = 6 \<or> tickPhase s = 9"
    | "tickPhase s = 1 \<or> tickPhase s = 4 \<or> tickPhase s = 7 \<or> tickPhase s = 10"
    | "tickPhase s = 2 \<or> tickPhase s = 5 \<or> tickPhase s = 8"
    | "tickPhase s = 11" | "tickPhase s = 12" | "tickPhase s = 15"
    | "tickPhase s \<notin> {0, 1, 2, 3, 4, 5, 6, 7, 8, 9, 10, 11, 12, 15}"
    by auto
  then show ?thesis
  proof cases
    case 1
    then show ?thesis using table_phase0 [OF 1, of ADC] by (simp add: ISR_phase)
  next
    case 2
    then show ?thesis using table_phaseNear [OF 2, of ADC] by (auto simp: ISR_phase)
  next
    case 3
    then show ?thesis using table_phaseOff [OF 3, of ADC] by (auto simp: ISR_phase)
  next
    case 4
    then show ?thesis using table_phaseFar [OF 4, of ADC] by (auto simp: ISR_phase)
  next
    case 5
    then show ?thesis using table_phase11 [OF 5, of ADC] by (simp add: ISR_phase)
  next
    case 6
    then show ?thesis using table_phase12 [OF 6, of ADC] by (simp add: ISR_phase)
  next
    case 7
    then show ?thesis using table_phase15 [OF 7, of ADC] by (simp add: ISR_phase)
  next
    case 8
    then show ?thesis using table_phaseIdle [OF 8, of ADC] by (simp add: ISR_phase)
  qed
qed

lemma runISR_table: "runISR adcs s = runTable adcs s"
  by (induction adcs arbitrary: s) (simp_all add: ISR_table split: option.splits)

lemma led_bits:
  "bit (PORTB (farLedOn s)) 0 \<and> bit (PORTB (farLedOn s)) 1"
  "\<not> bit (PORTB (farLedOff s)) 0 \<and> \<not> bit (PORTB (farLedOff s)) 1"
  "bit (PORTA (nearLedOn s)) PortANearLedBit"
  "\<not> bit (PORTA (nearLedOff s)) PortANearLedBit"
  by (simp_all add: farLedOn_def farLedOff_def nearLedOn_def nearLedOff_def bit_portSet
      bit_portClear PortANearLedBit_def portSet_def portClear_def PortBFarLedMask_def
      BITVAL_def bit_simps)

section \<open>One firing and sequences of firings\<close>

lemma setLeds_frame:
  "nearSumIR (setLeds row s) = nearSumIR s" "farSumIR (setLeds row s) = farSumIR s"
  "offSumIR (setLeds row s) = offSumIR s"
  "nearLedReadings (setLeds row s) = nearLedReadings s"
  "farLedReadings (setLeds row s) = farLedReadings s"
  "offReadings (setLeds row s) = offReadings s"
  "nearLedIndex (setLeds row s) = nearLedIndex s" "farLedIndex (setLeds row s) = farLedIndex s"
  "offIndex (setLeds row s) = offIndex s"
  "fanReadings (setLeds row s) = fanReadings s" "fanOffsets (setLeds row s) = fanOffsets s"
  "fanReadingSum (setLeds row s) = fanReadingSum s" "fanOffsetSum (setLeds row s) = fanOffsetSum s"
  "fanIndex (setLeds row s) = fanIndex s" "fan1Kmode (setLeds row s) = fan1Kmode s"
  "running (setLeds row s) = running s"
  by (simp_all add: ledDefs Let_def split: option.splits)

lemma routedTo_None:
  "routedTo s = None \<Longrightarrow> running s \<Longrightarrow> tickPhase s \<noteq> 0"
  by (auto simp: routedTo_def phaseTable_def split: if_splits)

lemma routedTo_FanOffset:
  "routedTo s = Some FanOffsetAcc \<longleftrightarrow> running s \<and> tickPhase s = 0 \<and> fan1Kmode s \<and> tickBit4 s"
  by (auto simp: routedTo_def phaseTable_def split: if_splits)

lemma routedTo_FanReading:
  "routedTo s = Some FanReadingAcc \<longleftrightarrow> running s \<and> tickPhase s = 0 \<and> \<not> (fan1Kmode s \<and> tickBit4 s)"
  by (auto simp: routedTo_def phaseTable_def split: if_splits)

lemma routedTo_IR:
  "routedTo s = Some a \<Longrightarrow> a \<in> {NearAcc, FarAcc, OffAcc} \<Longrightarrow> running s \<and> tickPhase s \<noteq> 0"
  by (auto simp: routedTo_def phaseTable_def split: if_splits)

lemma step_None:
  assumes inv: "isrInvariant s" and r: "routedTo s = None"
  shows "\<exists>s'. ISR ADC s = Some s' \<and> stepOK ADC s s'"
proof -
  define row where "row = phaseTable (tickPhase s) (tickBit4 s) (fan1Kmode s)"
  let ?s' = "(setLeds row s)\<lparr>tickCounter := tickCounter s + 1\<rparr>"
  have isr: "ISR ADC s = Some ?s'"
    by (simp add: ISR_table tableISR_def r Let_def row_def)
  have inv': "isrInvariant ?s'"
    using inv by (simp add: isrInvariant_rings setLeds_frame)
  have c: "fan1Kmode s \<Longrightarrow> running s \<Longrightarrow> offsetCursor ?s' = offsetCursor s"
    using routedTo_None [OF r] next_after [of ?s' s]
    by (simp add: offsetCursor_def setLeds_frame)
  have "windowOf a ?s' = windowOf a s" for a
    using c by (cases a) (simp_all add: windowOf_def setLeds_frame)
  with isr inv' show ?thesis
    by (simp add: stepOK_def r setLeds_frame)
qed

lemma step_Near:
  assumes inv: "isrInvariant s" and r: "routedTo s = Some NearAcc"
  shows "\<exists>s'. ISR ADC s = Some s' \<and> stepOK ADC s s'"
proof -
  define row where "row = phaseTable (tickPhase s) (tickBit4 s) (fan1Kmode s)"
  define v where "v = sampleOf ADC s"
  have v: "v \<le> 1023"
    by (simp add: v_def sampleOf_le)
  let ?s1 = "s\<lparr>nearSumIR := nearSumIR s - nearLedReadings s ! unat (nearLedIndex s) + v,
               nearLedReadings := (nearLedReadings s)[unat (nearLedIndex s) := v],
               nearLedIndex := nextIndex (nearLedIndex s) 8\<rparr>"
  let ?s' = "(setLeds row ?s1)\<lparr>tickCounter := tickCounter s + 1\<rparr>"
  from inv have ring: "ringInv 8 (nearSumIR s) (nearLedReadings s) (nearLedIndex s)"
    by (simp add: isrInvariant_rings)
  note push = ringInv_push8 [OF ring v]
  have ph: "running s" "tickPhase s \<noteq> 0"
    using routedTo_IR [OF r] by simp_all
  have isr: "ISR ADC s = Some ?s'"
    by (simp add: ISR_table tableISR_def r Let_def pushSample_def updateNear_def push(1)
        cyclesAveragedIR_def row_def flip: v_def)
  have inv': "isrInvariant ?s'"
    using inv push(2) by (simp add: isrInvariant_rings setLeds_frame)
  have c: "offsetCursor ?s' = offsetCursor s"
    using ph next_after [of ?s' s] by (simp add: offsetCursor_def setLeds_frame)
  have "windowOf a ?s' = (if a = NearAcc then tl (windowOf a s) @ [v] else windowOf a s)" for a
    using c push(3) by (cases a) (simp_all add: windowOf_def setLeds_frame)
  with isr inv' show ?thesis
    by (simp add: stepOK_def r setLeds_frame eq_commute [of "NearAcc"] flip: v_def)
qed

lemma step_Far:
  assumes inv: "isrInvariant s" and r: "routedTo s = Some FarAcc"
  shows "\<exists>s'. ISR ADC s = Some s' \<and> stepOK ADC s s'"
proof -
  define row where "row = phaseTable (tickPhase s) (tickBit4 s) (fan1Kmode s)"
  define v where "v = sampleOf ADC s"
  have v: "v \<le> 1023"
    by (simp add: v_def sampleOf_le)
  let ?s1 = "s\<lparr>farSumIR := farSumIR s - farLedReadings s ! unat (farLedIndex s) + v,
               farLedReadings := (farLedReadings s)[unat (farLedIndex s) := v],
               farLedIndex := nextIndex (farLedIndex s) 8\<rparr>"
  let ?s' = "(setLeds row ?s1)\<lparr>tickCounter := tickCounter s + 1\<rparr>"
  from inv have ring: "ringInv 8 (farSumIR s) (farLedReadings s) (farLedIndex s)"
    by (simp add: isrInvariant_rings)
  note push = ringInv_push8 [OF ring v]
  have ph: "running s" "tickPhase s \<noteq> 0"
    using routedTo_IR [OF r] by simp_all
  have isr: "ISR ADC s = Some ?s'"
    by (simp add: ISR_table tableISR_def r Let_def pushSample_def updateFar_def push(1)
        cyclesAveragedIR_def row_def flip: v_def)
  have inv': "isrInvariant ?s'"
    using inv push(2) by (simp add: isrInvariant_rings setLeds_frame)
  have c: "offsetCursor ?s' = offsetCursor s"
    using ph next_after [of ?s' s] by (simp add: offsetCursor_def setLeds_frame)
  have "windowOf a ?s' = (if a = FarAcc then tl (windowOf a s) @ [v] else windowOf a s)" for a
    using c push(3) by (cases a) (simp_all add: windowOf_def setLeds_frame)
  with isr inv' show ?thesis
    by (simp add: stepOK_def r setLeds_frame eq_commute [of "FarAcc"] flip: v_def)
qed

lemma step_Off:
  assumes inv: "isrInvariant s" and r: "routedTo s = Some OffAcc"
  shows "\<exists>s'. ISR ADC s = Some s' \<and> stepOK ADC s s'"
proof -
  define row where "row = phaseTable (tickPhase s) (tickBit4 s) (fan1Kmode s)"
  define v where "v = sampleOf ADC s"
  have v: "v \<le> 1023"
    by (simp add: v_def sampleOf_le)
  let ?s1 = "s\<lparr>offSumIR := offSumIR s - offReadings s ! unat (offIndex s) + v,
               offReadings := (offReadings s)[unat (offIndex s) := v],
               offIndex := nextIndex (offIndex s) 8\<rparr>"
  let ?s' = "(setLeds row ?s1)\<lparr>tickCounter := tickCounter s + 1\<rparr>"
  from inv have ring: "ringInv 8 (offSumIR s) (offReadings s) (offIndex s)"
    by (simp add: isrInvariant_rings)
  note push = ringInv_push8 [OF ring v]
  have ph: "running s" "tickPhase s \<noteq> 0"
    using routedTo_IR [OF r] by simp_all
  have isr: "ISR ADC s = Some ?s'"
    by (simp add: ISR_table tableISR_def r Let_def pushSample_def updateOff_def push(1)
        cyclesAveragedIR_def row_def flip: v_def)
  have inv': "isrInvariant ?s'"
    using inv push(2) by (simp add: isrInvariant_rings setLeds_frame)
  have c: "offsetCursor ?s' = offsetCursor s"
    using ph next_after [of ?s' s] by (simp add: offsetCursor_def setLeds_frame)
  have "windowOf a ?s' = (if a = OffAcc then tl (windowOf a s) @ [v] else windowOf a s)" for a
    using c push(3) by (cases a) (simp_all add: windowOf_def setLeds_frame)
  with isr inv' show ?thesis
    by (simp add: stepOK_def r setLeds_frame eq_commute [of "OffAcc"] flip: v_def)
qed

lemma step_FanReading:
  assumes inv: "isrInvariant s" and r: "routedTo s = Some FanReadingAcc"
  shows "\<exists>s'. ISR ADC s = Some s' \<and> stepOK ADC s s'"
proof -
  define row where "row = phaseTable (tickPhase s) (tickBit4 s) (fan1Kmode s)"
  define v where "v = sampleOf ADC s"
  have v: "v \<le> 1023"
    by (simp add: v_def sampleOf_le)
  let ?s1 = "s\<lparr>fanReadingSum := fanReadingSum s - fanReadings s ! unat (fanIndex s) + v,
               fanReadings := (fanReadings s)[unat (fanIndex s) := v],
               fanIndex := nextIndex (fanIndex s) 16\<rparr>"
  let ?s' = "(setLeds row ?s1)\<lparr>tickCounter := tickCounter s + 1\<rparr>"
  from inv have ring: "ringInv 16 (fanReadingSum s) (fanReadings s) (fanIndex s)"
    by (simp add: isrInvariant_rings)
  note push = ringInv_push16 [OF ring v]
  have ph: "running s" "tickPhase s = 0" "fan1Kmode s \<Longrightarrow> \<not> tickBit4 s"
    using r by (simp_all add: routedTo_FanReading)
  have isr: "ISR ADC s = Some ?s'"
    by (simp add: ISR_table tableISR_def r Let_def pushSample_def updateFanReading_def push(1)
        fanSamplesAveraged_def row_def flip: v_def)
  have inv': "isrInvariant ?s'"
    using inv push(2) by (simp add: isrInvariant_rings setLeds_frame)
  have c: "fan1Kmode s \<Longrightarrow> offsetCursor ?s' = offsetCursor s"
    using ph next_after [of ?s' s] next_phase0 [of s]
    by (simp add: offsetCursor_def setLeds_frame unat_nextIndex16 fanSamplesAveraged_def)
  have "windowOf a ?s' = (if a = FanReadingAcc then tl (windowOf a s) @ [v] else windowOf a s)"
    for a
    using c push(3) by (cases a) (simp_all add: windowOf_def setLeds_frame)
  with isr inv' show ?thesis
    by (simp add: stepOK_def r setLeds_frame eq_commute [of "FanReadingAcc"] flip: v_def)
qed

lemma step_FanOffset:
  assumes inv: "isrInvariant s" and r: "routedTo s = Some FanOffsetAcc"
  shows "\<exists>s'. ISR ADC s = Some s' \<and> stepOK ADC s s'"
proof -
  define row where "row = phaseTable (tickPhase s) (tickBit4 s) (fan1Kmode s)"
  define v where "v = sampleOf ADC s"
  have v: "v \<le> 1023"
    by (simp add: v_def sampleOf_le)
  let ?s1 = "s\<lparr>fanOffsetSum := fanOffsetSum s - fanOffsets s ! unat (fanIndex s) + v,
               fanOffsets := (fanOffsets s)[unat (fanIndex s) := v]\<rparr>"
  let ?s' = "(setLeds row ?s1)\<lparr>tickCounter := tickCounter s + 1\<rparr>"
  from inv have ring: "ringOK 16 (fanOffsetSum s) (fanOffsets s)" and i: "unat (fanIndex s) < 16"
    by (simp_all add: isrInvariant_rings ringInv_def)
  then have len: "length (fanOffsets s) = 16"
    by (simp add: ringOK_def)
  note push = accumulate_ok [OF ring _ i v, simplified]
  have ph: "running s" "tickPhase s = 0" "fan1Kmode s" "tickBit4 s"
    using r by (simp_all add: routedTo_FanOffset)
  have isr: "ISR ADC s = Some ?s'"
    by (simp add: ISR_table tableISR_def r Let_def pushSample_def updateFanOffset_def push(1)
        row_def flip: v_def)
  have inv': "isrInvariant ?s'"
    using inv push(2) by (simp add: isrInvariant_rings setLeds_frame)
  have c: "offsetCursor s = unat (fanIndex s)" "offsetCursor ?s' = Suc (unat (fanIndex s)) mod 16"
    using ph next_after [of ?s' s] next_phase0 [of s]
    by (simp_all add: offsetCursor_def setLeds_frame fanSamplesAveraged_def)
  have w: "window (Suc (unat (fanIndex s)) mod 16) ((fanOffsets s)[unat (fanIndex s) := v])
      = tl (window (unat (fanIndex s)) (fanOffsets s)) @ [v]"
    using window_push [of "unat (fanIndex s)" "fanOffsets s" v] i len by simp
  have "windowOf a ?s' = (if a = FanOffsetAcc then tl (windowOf a s) @ [v] else windowOf a s)"
    for a
    using c w ph by (cases a) (simp_all add: windowOf_def setLeds_frame)
  with isr inv' show ?thesis
    by (simp add: stepOK_def r setLeds_frame eq_commute [of "FanOffsetAcc"] flip: v_def)
qed

lemma ISR_step:
  assumes "isrInvariant s"
  shows "\<exists>s'. ISR ADC s = Some s' \<and> stepOK ADC s s'"
proof (cases "routedTo s")
  case None
  with assms show ?thesis by (rule step_None)
next
  case (Some a)
  with assms show ?thesis
    by (cases a) (simp_all add: step_Near step_Far step_Off step_FanReading step_FanOffset)
qed

lemma length_windowOf: "isrInvariant s \<Longrightarrow> length (windowOf a s) = sizeOf a"
  by (cases a)
    (simp_all add: isrInvariant_rings ringInv_def ringOK_def windowOf_def sizeOf_def
      cyclesAveragedIR_def fanSamplesAveraged_def)

lemma sum_windowOf:
  "isrInvariant s \<Longrightarrow> unat (sumOf a s) = sum_list (map unat (windowOf a s))"
  by (cases a)
    (simp_all add: isrInvariant_rings ringInv_def ringOK_def exactSum_def windowOf_def sumOf_def
      sum_list_window)

lemma sizeOf_pos: "0 < sizeOf a"
  by (cases a) (simp_all add: sizeOf_def cyclesAveragedIR_def fanSamplesAveraged_def)

lemma run_windows:
  assumes "isrInvariant s"
  shows "\<exists>s'. runISR adcs s = Some s' \<and> isrInvariant s' \<and>
           (\<forall>a. windowOf a s' = lastN (sizeOf a) (windowOf a s @ pushedTo a adcs s))"
  using assms
proof (induction adcs arbitrary: s)
  case Nil
  then show ?case
    by (simp add: lastN_same length_windowOf)
next
  case (Cons ADC rest)
  from ISR_step [OF Cons.prems, of ADC] obtain s1
    where isr: "ISR ADC s = Some s1" and ok: "stepOK ADC s s1"
    by blast
  from ok have inv1: "isrInvariant s1"
    and w1: "\<And>a. windowOf a s1 =
        (if routedTo s = Some a then tl (windowOf a s) @ [sampleOf ADC s] else windowOf a s)"
    by (simp_all add: stepOK_def)
  from Cons.IH [OF inv1] obtain s' where run: "runISR rest s1 = Some s'"
    and inv': "isrInvariant s'"
    and w': "\<And>a. windowOf a s' = lastN (sizeOf a) (windowOf a s1 @ pushedTo a rest s1)"
    by blast
  have "windowOf a s' = lastN (sizeOf a) (windowOf a s @ pushedTo a (ADC # rest) s)" for a
  proof (cases "routedTo s = Some a")
    case True
    have "windowOf a s1 = lastN (sizeOf a) (windowOf a s @ [sampleOf ADC s])"
      using True w1 [of a] lastN_push [OF length_windowOf [OF Cons.prems, of a] sizeOf_pos]
      by simp
    then show ?thesis
      using True by (simp add: w' isr lastN_lastN)
  next
    case False
    then show ?thesis
      by (simp add: w' w1 isr)
  qed
  with run inv' isr show ?case
    by simp
qed

section \<open>The fan output and the hold counter\<close>

lemma fan_after_check:
  "fanIsOn (checkFan s) =
     (if fanIsOn s then \<not> (offEligible s \<and> fanChangeCount s = 0) else turnOnCondition s)"
  by (auto simp: fanIsOn_bit checkFan_def Let_def offEligible_def turnOnCondition_def
      bit_portSet bit_portAndNot portTest_bit PortAFanControlBit_def)

lemma count_after_check:
  "fanChangeCount (checkFan s) =
     (if fanIsOn s then
        (if offEligible s \<and> fanChangeCount s \<noteq> 0 then fanChangeCount s - 1
         else fanChangeCount s)
      else if turnOnCondition s then ucast (fanOnSeconds * fanSampleFreq - 1)
      else fanChangeCount s)"
  by (simp add: fanIsOn_def checkFan_def Let_def offEligible_def turnOnCondition_def)

lemma holdTicks: "unat (fanOnSeconds * fanSampleFreq) = 32"
  "(ucast (fanOnSeconds * fanSampleFreq - 1) :: uint8_t) = 31"
  by (simp_all add: fanOnSeconds_def fanSampleFreq_def)

lemma setLeds_fan:
  "bit (PORTA (setLeds row s)) PortAFanControlBit = bit (PORTA s) PortAFanControlBit"
  "fanChangeCount (setLeds row s) = fanChangeCount s"
  by (simp_all add: ledDefs Let_def bit_portSet bit_portClear portBits split: option.splits)

lemma pushSample_fan:
  assumes "pushSample a v s = Some s'"
  shows "PORTA s' = PORTA s \<and> fanChangeCount s' = fanChangeCount s"
  using assms
  by (cases a)
    (auto simp: pushSample_def updateNear_def updateFar_def updateOff_def updateFanReading_def
      updateFanOffset_def split: option.splits)

lemma ISR_fan:
  assumes "ISR ADC s = Some s'"
  shows "fanIsOn s' = fanIsOn s \<and> fanChangeCount s' = fanChangeCount s"
proof (cases "routedTo s")
  case None
  with assms show ?thesis
    by (auto simp: ISR_table tableISR_def Let_def setLeds_fan fanIsOn_bit)
next
  case (Some a)
  with assms obtain s1 where "pushSample a (sampleOf ADC s) s = Some s1"
    and "s' = (setLeds (phaseTable (tickPhase s) (tickBit4 s) (fan1Kmode s)) s1)
               \<lparr>tickCounter := tickCounter s + 1\<rparr>"
    by (auto simp: ISR_table tableISR_def Let_def)
  then show ?thesis
    using pushSample_fan [of a "sampleOf ADC s" s s1] setLeds_fan [of _ s1]
    by (simp add: fanIsOn_bit)
qed

lemma sensorOutput_fan:
  "fanIsOn (sensorOutput PINA s) = fanIsOn s"
  "fanChangeCount (sensorOutput PINA s) = fanChangeCount s"
  by (simp_all add: sensorOutput_def Let_def fanIsOn_bit SetOutputOff_def SetOutputOn_def
      SetOutputApproaching_def SetOutputSaturated_def bit_portSet bit_portClear portBits)

lemma hold_invariant:
  assumes "runEvents es s = Some s'" and "fanIsOn s"
    and "31 \<le> unat (fanChangeCount s) + k" and "k + checks es < 32"
  shows "fanIsOn s'"
  using assms
proof (induction es s arbitrary: k rule: runEvents.induct)
  case (1 s)
  then show ?case by simp
next
  case (2 ADC rest s)
  from "2.prems"(1) obtain s1 where isr: "ISR ADC s = Some s1"
    and run: "runEvents rest s1 = Some s'"
    by (auto split: option.splits)
  from ISR_fan [OF isr] "2.prems" have "fanIsOn s1" "31 \<le> unat (fanChangeCount s1) + k"
    "k + checks rest < 32"
    by (simp_all add: checks_def)
  with "2.IH" [OF isr run] show ?case .
next
  case (3 PINA rest s)
  then show ?case
    by (simp add: sensorOutput_fan checks_def)
next
  case (4 rest s)
  from "4.prems" have k: "k < 31" and c: "fanChangeCount s \<noteq> 0"
    by (auto simp: checks_def)
  from c have "unat (fanChangeCount s - 1) = unat (fanChangeCount s) - 1"
    and "0 < unat (fanChangeCount s)"
    by (simp_all add: unat_minus_one unat_gt_0)
  with "4.prems"(2,3) c have "fanIsOn (checkFan s)"
    and "31 \<le> unat (fanChangeCount (checkFan s)) + Suc k"
    by (auto simp: fan_after_check count_after_check)
  moreover from "4.prems" have "Suc k + checks rest < 32"
    by (simp add: checks_def)
  ultimately show ?case
    using "4.IH" [of "Suc k"] "4.prems"(1) by simp
qed

section \<open>Reachable states keep the invariants\<close>

lemma startup_cases:
  "startup PINA = (if portTest PINA PortASeriesResistorSenseBit then startup 0x10 else startup 0)"
proof -
  have "portTest 0x10 PortASeriesResistorSenseBit" "\<not> portTest 0 PortASeriesResistorSenseBit"
    by (simp_all add: portTest_def BITVAL_def PortASeriesResistorSenseBit_def)
  then show ?thesis
    by (simp add: startup_def mainInit_def)
qed

lemma startup_inv: "isrInvariant (startup PINA)"
proof -
  have "isrInvariant (startup 0x10)" "isrInvariant (startup 0)"
    by code_simp+
  then show ?thesis
    by (simp add: startup_cases)
qed

lemma sensorOutput_rings:
  "isrInvariant (sensorOutput PINA s) = isrInvariant s"
  by (simp add: isrInvariant_rings sensorOutput_def Let_def SetOutputOff_def SetOutputOn_def
      SetOutputApproaching_def SetOutputSaturated_def)

lemma checkFan_rings: "isrInvariant (checkFan s) = isrInvariant s"
  by (simp add: isrInvariant_rings checkFan_def Let_def)

lemma pollFan_rings: "isrInvariant (pollFan s) = isrInvariant s"
  using checkFan_rings [of s] by (simp add: pollFan_def Let_def isrInvariant_rings)

lemma reachable_inv: "reachable s \<Longrightarrow> isrInvariant s"
proof (induction rule: reachable.induct)
  case (boot PINA)
  show ?case by (rule startup_inv)
next
  case (interrupt s ADC s')
  from ISR_step [OF interrupt.IH, of ADC] interrupt.hyps(2) show ?case
    by (auto simp: stepOK_def)
next
  case (start s)
  then show ?case by (simp add: isrInvariant_rings startRunning_def)
next
  case (sensor s PINA)
  then show ?case by (simp add: sensorOutput_rings)
next
  case (poll s)
  then show ?case by (simp add: pollFan_rings)
qed

lemma reachable_runISR: "reachable s \<Longrightarrow> runISR adcs s = Some s' \<Longrightarrow> reachable s'"
proof (induction adcs arbitrary: s)
  case Nil
  then show ?case by simp
next
  case (Cons ADC rest)
  then show ?case
    by (auto split: option.splits intro: reachable.interrupt)
qed

lemma reachable_settled: "reachable settled"
proof -
  obtain s4 where r: "runISR [0, 0, 0, 0] (startup 0x10) = Some s4"
    using run_windows [OF startup_inv, of "[0, 0, 0, 0]" "0x10"] by blast
  have "map_option tickCounter (runISR [0, 0, 0, 0] (startup 0x10)) = Some 4"
    by code_simp
  with r have "\<not> tickCounter s4 < 4"
    by simp
  moreover have "reachable s4"
    using reachable.boot r by (rule reachable_runISR)
  ultimately have "reachable (startRunning s4)"
    by (rule reachable.start [rotated])
  with r show ?thesis
    by (simp add: settled_def)
qed

lemma reachable_afterRun: "reachable afterRun"
proof -
  have "isrInvariant settled"
    using reachable_settled by (rule reachable_inv)
  then obtain s' where r: "runISR exampleADC settled = Some s'"
    using run_windows [of settled exampleADC] by blast
  with reachable_settled have "reachable s'"
    by (rule reachable_runISR)
  with r show ?thesis
    by (simp add: afterRun_def)
qed

section \<open>Preemption\<close>



section \<open>The claims\<close>

text \<open>
  Claim C1. If on entry to a firing of the ISR every slot of the five readings arrays is
  at most 1023 and each of \<open>nearSumIR\<close>, \<open>farSumIR\<close>, \<open>offSumIR\<close>,
  \<open>fanReadingSum\<close> and \<open>fanOffsetSum\<close> is the sum of its array, taken in the natural
  numbers (the arrays having their declared sizes and the indices the values of their
  types), then the firing, once past its wait on the timer, completes with every array
  access in bounds, and the same holds on exit. Consequently, after any
  sequence of firings each sum is the sum of the last N elements of what the ring held
  on entry followed by the samples pushed into it, and once N samples have been pushed
  it is the sum of the last N pushed samples, where N is 8 for the IR accumulators and
  16 for the fan accumulators. The cursor wraps around on the way.
\<close>

theorem accumulator_correctness:
  assumes "wellFormed s" and "irInvariant s" and "fanInvariant s"
  shows "(\<exists>s'. ISR ADC s = Some s' \<and> wellFormed s' \<and> irInvariant s' \<and> fanInvariant s')
       \<and> (\<exists>s'. runISR adcs s = Some s' \<and> wellFormed s' \<and> irInvariant s' \<and> fanInvariant s'
             \<and> (\<forall>a. unat (sumOf a s')
                      = sum_list (map unat (lastN (sizeOf a) (windowOf a s @ pushedTo a adcs s)))
                    \<and> (sizeOf a \<le> length (pushedTo a adcs s) \<longrightarrow>
                         unat (sumOf a s')
                           = sum_list (map unat (lastN (sizeOf a) (pushedTo a adcs s))))))
       \<and> sizeOf NearAcc = 8 \<and> sizeOf FarAcc = 8 \<and> sizeOf OffAcc = 8
       \<and> sizeOf FanReadingAcc = 16 \<and> sizeOf FanOffsetAcc = 16"
proof -
  from assms have inv: "isrInvariant s"
    by (simp add: isrInvariant_def)
  from ISR_step [OF inv, of ADC] have one:
    "\<exists>s'. ISR ADC s = Some s' \<and> wellFormed s' \<and> irInvariant s' \<and> fanInvariant s'"
    by (auto simp: stepOK_def isrInvariant_def)
  from run_windows [OF inv, of adcs] obtain s' where run: "runISR adcs s = Some s'"
    and inv': "isrInvariant s'"
    and w: "\<And>a. windowOf a s' = lastN (sizeOf a) (windowOf a s @ pushedTo a adcs s)"
    by blast
  have sums: "unat (sumOf a s')
      = sum_list (map unat (lastN (sizeOf a) (windowOf a s @ pushedTo a adcs s)))" for a
    using sum_windowOf [OF inv', of a] by (simp add: w)
  have "unat (sumOf a s') = sum_list (map unat (lastN (sizeOf a) (pushedTo a adcs s)))"
    if "sizeOf a \<le> length (pushedTo a adcs s)" for a
    using sums [of a] that by (simp add: lastN_append_ge)
  with run inv' sums have many:
    "\<exists>s'. runISR adcs s = Some s' \<and> wellFormed s' \<and> irInvariant s' \<and> fanInvariant s'
       \<and> (\<forall>a. unat (sumOf a s')
                = sum_list (map unat (lastN (sizeOf a) (windowOf a s @ pushedTo a adcs s)))
              \<and> (sizeOf a \<le> length (pushedTo a adcs s) \<longrightarrow>
                   unat (sumOf a s')
                     = sum_list (map unat (lastN (sizeOf a) (pushedTo a adcs s)))))"
    by (auto simp: isrInvariant_def)
  from one many show ?thesis
    by (simp add: sizeOf_def cyclesAveragedIR_def fanSamplesAveraged_def)
qed

theorem accumulator_correctness_witness:
  "wellFormed settled \<and> irInvariant settled \<and> fanInvariant settled
   \<and> pushedTo NearAcc exampleADC settled = [74, 185, 296, 555, 666, 777, 888, 123, 234, 345]
   \<and> (\<exists>s'. runISR exampleADC settled = Some s' \<and> irInvariant s' \<and> fanInvariant s'
         \<and> unat (nearSumIR s')
             = sum_list (map unat [296, 555, 666, 777, 888, 123, 234, 345 :: uint16_t]))"
proof -
  have h: "wellFormed settled" "irInvariant settled" "fanInvariant settled"
    by code_simp+
  have p: "pushedTo NearAcc exampleADC settled
      = [74, 185, 296, 555, 666, 777, 888, 123, 234, 345]"
    by code_simp
  from accumulator_correctness [OF h, of 0 exampleADC]
  obtain s' where "runISR exampleADC settled = Some s'" "irInvariant s'" "fanInvariant s'"
    and "sizeOf NearAcc \<le> length (pushedTo NearAcc exampleADC settled) \<longrightarrow>
           unat (sumOf NearAcc s')
             = sum_list (map unat (lastN (sizeOf NearAcc) (pushedTo NearAcc exampleADC settled)))"
    by blast
  then have "\<exists>s'. runISR exampleADC settled = Some s' \<and> irInvariant s' \<and> fanInvariant s'
         \<and> unat (nearSumIR s')
             = sum_list (map unat [296, 555, 666, 777, 888, 123, 234, 345 :: uint16_t])"
    by (simp add: p sizeOf_def sumOf_def cyclesAveragedIR_def lastN_def)
  with h p show ?thesis
    by simp
qed

text \<open>
  Claim C2, with phase 0 as the code has it. A firing of the ISR is the firing the phase
  table prescribes, for every state and every ADC value, and so is every sequence of
  firings. The row depends on the tick counter through its low four bits (the phase) and
  bit 4 only, and on \<open>fan1Kmode\<close>; the accumulator of the row is written only while
  \<open>running\<close> is set. Phase 0 routes into the fan offset accumulator in the 1K variant
  when bit 4 is set and into the fan reading accumulator otherwise, and turns the far LED
  on; phases 3, 6, 9 route into near and turn the far LED on; phases 1, 4, 7, 10 route
  into off, turn the far LED off and the near LED on; phases 2, 5, 8 route into far and
  turn the near LED off; phase 11 does the same and programs the multiplexer for the fan;
  phase 12 routes into near; phases 13 and 14 change nothing but the tick counter;
  phase 15 selects the phototransistor input.
\<close>

theorem phase_table:
  "ISR ADC s = tableISR ADC s
   \<and> runISR adcs s = runTable adcs s
   \<and> tickPhase s = unat (tickCounter s AND 0x0f) \<and> tickBit4 s = bit (tickCounter s) 4
   \<and> (tickPhase s = 13 \<or> tickPhase s = 14 \<longrightarrow>
        ISR ADC s = Some (s\<lparr>tickCounter := tickCounter s + 1\<rparr>))
   \<and> bit (PORTB (farLedOn s)) 0 \<and> bit (PORTB (farLedOn s)) 1
   \<and> \<not> bit (PORTB (farLedOff s)) 0 \<and> \<not> bit (PORTB (farLedOff s)) 1
   \<and> bit (PORTA (nearLedOn s)) PortANearLedBit
   \<and> \<not> bit (PORTA (nearLedOff s)) PortANearLedBit
   \<and> (0x01 :: uint8_t) = of_nat AdcPhototransistorChan"
proof -
  have "ISR ADC s = Some (s\<lparr>tickCounter := tickCounter s + 1\<rparr>)"
    if "tickPhase s = 13 \<or> tickPhase s = 14"
    using that by (auto simp: ISR_phase)
  then show ?thesis
    using led_bits [of s]
    by (simp add: ISR_table runISR_table tickPhase_and tickBit4_bit AdcPhototransistorChan_def)
qed

theorem phase_table_witness:
  "runISR cycleADC gatingExample0 = runTable cycleADC gatingExample0
   \<and> tickPhase (gatingExample0\<lparr>tickCounter := 13\<rparr>) = 13
   \<and> ISR 0 (gatingExample0\<lparr>tickCounter := 13\<rparr>) = Some (gatingExample0\<lparr>tickCounter := 14\<rparr>)
   \<and> map (\<lambda>p. phaseTable p True True) [0..<16] =
       [\<lparr>target = Some FanOffsetAcc, farLed = Some True, nearLed = None, mux = None\<rparr>,
        \<lparr>target = Some OffAcc, farLed = Some False, nearLed = Some True, mux = None\<rparr>,
        \<lparr>target = Some FarAcc, farLed = None, nearLed = Some False, mux = None\<rparr>,
        \<lparr>target = Some NearAcc, farLed = Some True, nearLed = None, mux = None\<rparr>,
        \<lparr>target = Some OffAcc, farLed = Some False, nearLed = Some True, mux = None\<rparr>,
        \<lparr>target = Some FarAcc, farLed = None, nearLed = Some False, mux = None\<rparr>,
        \<lparr>target = Some NearAcc, farLed = Some True, nearLed = None, mux = None\<rparr>,
        \<lparr>target = Some OffAcc, farLed = Some False, nearLed = Some True, mux = None\<rparr>,
        \<lparr>target = Some FarAcc, farLed = None, nearLed = Some False, mux = None\<rparr>,
        \<lparr>target = Some NearAcc, farLed = Some True, nearLed = None, mux = None\<rparr>,
        \<lparr>target = Some OffAcc, farLed = Some False, nearLed = Some True, mux = None\<rparr>,
        \<lparr>target = Some FarAcc, farLed = None, nearLed = Some False, mux = Some 0x13\<rparr>,
        \<lparr>target = Some NearAcc, farLed = None, nearLed = None, mux = None\<rparr>,
        \<lparr>target = None, farLed = None, nearLed = None, mux = None\<rparr>,
        \<lparr>target = None, farLed = None, nearLed = None, mux = None\<rparr>,
        \<lparr>target = None, farLed = None, nearLed = None, mux = Some 0x01\<rparr>]
   \<and> phaseTable 0 False True
       = \<lparr>target = Some FanReadingAcc, farLed = Some True, nearLed = None, mux = None\<rparr>
   \<and> phaseTable 0 True False
       = \<lparr>target = Some FanReadingAcc, farLed = Some True, nearLed = None, mux = None\<rparr>
   \<and> phaseTable 11 False True
       = \<lparr>target = Some FarAcc, farLed = None, nearLed = Some False, mux = Some 0x33\<rparr>
   \<and> phaseTable 11 True False
       = \<lparr>target = Some FarAcc, farLed = None, nearLed = Some False, mux = Some 0x03\<rparr>
   \<and> map_option (\<lambda>s. (nearLedReadings s, farLedReadings s, offReadings s, fanReadings s))
         (runISR cycleADC gatingExample0) =
       Some ([250, 400, 550, 700, 0, 0, 0, 0], [200, 350, 500, 650, 0, 0, 0, 0],
             [150, 300, 450, 600, 0, 0, 0, 0],
             [100, 1016, 1016, 1016, 1016, 1016, 1016, 1016, 1016, 1016, 1016, 1016, 1016,
              1016, 1016, 1016])"
proof -
  have rows: "map (\<lambda>p. phaseTable p True True) [0..<16] =
       [\<lparr>target = Some FanOffsetAcc, farLed = Some True, nearLed = None, mux = None\<rparr>,
        \<lparr>target = Some OffAcc, farLed = Some False, nearLed = Some True, mux = None\<rparr>,
        \<lparr>target = Some FarAcc, farLed = None, nearLed = Some False, mux = None\<rparr>,
        \<lparr>target = Some NearAcc, farLed = Some True, nearLed = None, mux = None\<rparr>,
        \<lparr>target = Some OffAcc, farLed = Some False, nearLed = Some True, mux = None\<rparr>,
        \<lparr>target = Some FarAcc, farLed = None, nearLed = Some False, mux = None\<rparr>,
        \<lparr>target = Some NearAcc, farLed = Some True, nearLed = None, mux = None\<rparr>,
        \<lparr>target = Some OffAcc, farLed = Some False, nearLed = Some True, mux = None\<rparr>,
        \<lparr>target = Some FarAcc, farLed = None, nearLed = Some False, mux = None\<rparr>,
        \<lparr>target = Some NearAcc, farLed = Some True, nearLed = None, mux = None\<rparr>,
        \<lparr>target = Some OffAcc, farLed = Some False, nearLed = Some True, mux = None\<rparr>,
        \<lparr>target = Some FarAcc, farLed = None, nearLed = Some False, mux = Some 0x13\<rparr>,
        \<lparr>target = Some NearAcc, farLed = None, nearLed = None, mux = None\<rparr>,
        \<lparr>target = None, farLed = None, nearLed = None, mux = None\<rparr>,
        \<lparr>target = None, farLed = None, nearLed = None, mux = None\<rparr>,
        \<lparr>target = None, farLed = None, nearLed = None, mux = Some 0x01\<rparr>]"
    by code_simp
  have others: "phaseTable 0 False True
       = \<lparr>target = Some FanReadingAcc, farLed = Some True, nearLed = None, mux = None\<rparr>
   \<and> phaseTable 0 True False
       = \<lparr>target = Some FanReadingAcc, farLed = Some True, nearLed = None, mux = None\<rparr>
   \<and> phaseTable 11 False True
       = \<lparr>target = Some FarAcc, farLed = None, nearLed = Some False, mux = Some 0x33\<rparr>
   \<and> phaseTable 11 True False
       = \<lparr>target = Some FarAcc, farLed = None, nearLed = Some False, mux = Some 0x03\<rparr>"
    by code_simp
  have run: "map_option (\<lambda>s. (nearLedReadings s, farLedReadings s, offReadings s, fanReadings s))
         (runISR cycleADC gatingExample0) =
       Some ([250, 400, 550, 700, 0, 0, 0, 0], [200, 350, 500, 650, 0, 0, 0, 0],
             [150, 300, 450, 600, 0, 0, 0, 0],
             [100, 1016, 1016, 1016, 1016, 1016, 1016, 1016, 1016, 1016, 1016, 1016, 1016,
              1016, 1016, 1016])"
    by code_simp
  have ph: "tickPhase (gatingExample0\<lparr>tickCounter := 13\<rparr>) = 13"
    by code_simp
  with phase_table [of 0 "gatingExample0\<lparr>tickCounter := 13\<rparr>" cycleADC]
  have "ISR 0 (gatingExample0\<lparr>tickCounter := 13\<rparr>)
      = Some (gatingExample0\<lparr>tickCounter := 13\<rparr>
               \<lparr>tickCounter := tickCounter (gatingExample0\<lparr>tickCounter := 13\<rparr>) + 1\<rparr>)"
    by blast
  then have "ISR 0 (gatingExample0\<lparr>tickCounter := 13\<rparr>)
      = Some (gatingExample0\<lparr>tickCounter := 14\<rparr>)"
    by simp
  with rows others run ph show ?thesis
    using phase_table [of 0 gatingExample0 cycleADC] by simp
qed

text \<open>
  In the 4K7 variant a firing at phase 0 writes the fan reading accumulator in both
  halves of the fan cycle and never the offset accumulator: bit 4 of the tick does not
  choose between them there.
\<close>

theorem phase0_gating_counterexample:
  "fan1Kmode gatingExample0 = False \<and> fan1Kmode gatingExample16 = False
   \<and> running gatingExample0 \<and> running gatingExample16
   \<and> tickPhase gatingExample0 = 0 \<and> tickPhase gatingExample16 = 0
   \<and> tickBit4 gatingExample0 = False \<and> tickBit4 gatingExample16 = True
   \<and> map_option fanReadingSum (ISR 500 gatingExample0) = Some 15740
   \<and> map_option fanReadingSum (ISR 500 gatingExample16) = Some 15740
   \<and> map_option fanOffsets (ISR 500 gatingExample0) = Some (replicate 16 1023)
   \<and> map_option fanOffsets (ISR 500 gatingExample16) = Some (replicate 16 1023)
   \<and> fanReadingSum gatingExample0 = 16256 \<and> fanReadingSum gatingExample16 = 16256"
  by code_simp

text \<open>
  Claim C3. Whenever the snapshot of the near sum or of the far sum is at least
  \<open>saturatedThreshold\<close>, which is 870 times \<open>cyclesAveragedIR\<close>, the iteration of the
  foreground loop sets the output to Saturated, whatever the off sum, the
  baseline-subtracted values and the mode-select input are.
\<close>

theorem saturation_precedence:
  assumes "nearSumIR s \<ge> saturatedThreshold \<or> farSumIR s \<ge> saturatedThreshold"
  shows "sensorOutput PINA s = SetOutputSaturated s
       \<and> outputLevel (PORTA (sensorOutput PINA s)) = Saturated
       \<and> outputLevel (PORTA (loopIteration PINA s)) = Saturated
       \<and> saturatedThreshold = 870 * cyclesAveragedIR"
proof -
  have "sensorOutput PINA s = SetOutputSaturated s"
    using assms by (simp add: sensorOutput_def)
  then show ?thesis
    by (simp add: loopIteration_def outputLevel_pollFan outputLevel_Saturated
        saturatedThreshold_def)
qed

theorem saturation_precedence_witness:
  "(nearSumIR (resetState\<lparr>nearSumIR := 900 * 8, farSumIR := 0\<rparr>) \<ge> saturatedThreshold
      \<or> farSumIR (resetState\<lparr>nearSumIR := 900 * 8, farSumIR := 0\<rparr>) \<ge> saturatedThreshold)
   \<and> outputLevel (PORTA (loopIteration 0 (resetState\<lparr>nearSumIR := 900 * 8, farSumIR := 0\<rparr>)))
       = Saturated"
  using saturation_precedence [of "resetState\<lparr>nearSumIR := 900 * 8, farSumIR := 0\<rparr>" 0]
  by (simp add: saturatedThreshold_def cyclesAveragedIR_def)

text \<open>
  Claim C4. The baseline subtraction \<open>(x > off) ? x - off : 0\<close>, applied to the near
  and to the far snapshot, yields the unsigned value \<open>max 0 (x - off)\<close> computed in the
  integers: it never wraps below zero. With near 5 and off 10 the result is 0.
\<close>

theorem baseline_subtraction_floor:
  "uint (subtractOff x locOffSum) = max 0 (uint x - uint locOffSum)
   \<and> subtractOff 5 10 = 0"
  by (simp add: subtractOff_def word_less_def uint_sub_lem [THEN iffD1] max_def)

text \<open>
  Claim C5. When the Duet input pin reads low (simple mode) and the snapshot is not
  saturated, the output is On if the baseline-subtracted near value is at least
  \<open>simpleNearThreshold\<close> and Off otherwise; it is never Approaching. The fan poll that
  ends the iteration leaves the output as it is.
\<close>

theorem simple_mode_output:
  assumes "\<not> bit PINA PortADuetInputBit"
    and "nearSumIR s < saturatedThreshold" and "farSumIR s < saturatedThreshold"
  shows "outputLevel (PORTA (sensorOutput PINA s)) =
           (if subtractOff (nearSumIR s) (offSumIR s) \<ge> simpleNearThreshold then On else Off)
       \<and> outputLevel (PORTA (sensorOutput PINA s)) \<noteq> Approaching
       \<and> outputLevel (PORTA (loopIteration PINA s)) = outputLevel (PORTA (sensorOutput PINA s))"
proof -
  have "\<not> portTest PINA PortADuetInputBit"
    using assms(1) by (simp add: portTest_bit PortADuetInputBit_def)
  then have "sensorOutput PINA s =
      (if subtractOff (nearSumIR s) (offSumIR s) \<ge> simpleNearThreshold
       then SetOutputOn s else SetOutputOff s)"
    using assms(2,3) by (simp add: sensorOutput_def Let_def not_le [symmetric])
  then show ?thesis
    by (simp add: outputLevel_On outputLevel_Off loopIteration_def outputLevel_pollFan)
qed

theorem simple_mode_output_witness:
  "\<not> bit (0 :: uint8_t) PortADuetInputBit
   \<and> nearSumIR approachingExample < saturatedThreshold
   \<and> farSumIR approachingExample < saturatedThreshold
   \<and> outputLevel (PORTA (sensorOutput 0 approachingExample)) = Off
   \<and> outputLevel (PORTA (sensorOutput 1 approachingExample)) = Approaching"
proof -
  have d: "outputLevel (PORTA (sensorOutput 1 approachingExample)) = Approaching"
    by (simp add: sensorOutput_def approachingExample_def resetState_def subtractOff_def
        saturatedThreshold_def cyclesAveragedIR_def simpleNearThreshold_def farThreshold_def
        portTest_def BITVAL_def PortADuetInputBit_def outputLevel_Approaching)
  show ?thesis
    using simple_mode_output [of 0 approachingExample] d
    by (simp add: approachingExample_def resetState_def subtractOff_def
        saturatedThreshold_def cyclesAveragedIR_def simpleNearThreshold_def)
qed

text \<open>
  Claim C6. When \<open>checkFan\<close> switches the fan from off to on it sets
  \<open>fanChangeCount\<close> to \<open>fanOnSeconds * fanSampleFreq - 1\<close>, which is 31. After that,
  whatever the interrupts read and whatever the loop does, the fan is still on as long
  as fewer than \<open>fanOnSeconds * fanSampleFreq\<close> further invocations of \<open>checkFan\<close>
  have been made: with the invocation that turned it on, it stays on for at least 32
  check cycles. An invocation of \<open>checkFan\<close> switches the fan off only when the counter
  is zero, and neither the ISR nor the sensor controller changes the fan output.
\<close>

theorem fan_hysteresis:
  assumes "\<not> fanIsOn s" and "fanIsOn (checkFan s)"
    and "runEvents es (checkFan s) = Some s'"
    and "checks es < unat (fanOnSeconds * fanSampleFreq)"
  shows "fanChangeCount (checkFan s) = ucast (fanOnSeconds * fanSampleFreq - 1)
       \<and> fanIsOn s'
       \<and> (fanIsOn t \<and> \<not> fanIsOn (checkFan t) \<longrightarrow> fanChangeCount t = 0)
       \<and> (ISR ADC t = Some t' \<longrightarrow> fanIsOn t' = fanIsOn t)
       \<and> fanIsOn (sensorOutput PINA t) = fanIsOn t"
proof -
  from assms(1,2) have on: "turnOnCondition s"
    by (simp add: fan_after_check)
  with assms(1) have c: "fanChangeCount (checkFan s) = ucast (fanOnSeconds * fanSampleFreq - 1)"
    by (simp add: count_after_check)
  then have "31 \<le> unat (fanChangeCount (checkFan s)) + 0"
    by (simp add: holdTicks)
  moreover from assms(4) have "0 + checks es < 32"
    by (simp add: holdTicks)
  ultimately have "fanIsOn s'"
    using hold_invariant [OF assms(3) assms(2)] by blast
  moreover have "fanIsOn t \<and> \<not> fanIsOn (checkFan t) \<longrightarrow> fanChangeCount t = 0"
    by (auto simp: fan_after_check)
  moreover have "ISR ADC t = Some t' \<longrightarrow> fanIsOn t' = fanIsOn t"
    using ISR_fan [of ADC t t'] by simp
  ultimately show ?thesis
    using c by (simp add: sensorOutput_fan)
qed

theorem fan_hysteresis_witness:
  "\<not> fanIsOn hotExample \<and> fanIsOn (checkFan hotExample)
   \<and> checks (coolingEvents @ replicate 31 CheckFan) = 31
   \<and> unat (fanOnSeconds * fanSampleFreq) = 32
   \<and> fanChangeCount (checkFan hotExample) = 31
   \<and> ISR 1023 (checkFan hotExample) = Some heldExample
   \<and> fanIsOn heldExample \<and> offEligible heldExample
   \<and> map_option fanIsOn (runEvents (coolingEvents @ replicate 31 CheckFan) (checkFan hotExample))
       = Some True
   \<and> map_option fanIsOn (runEvents (coolingEvents @ replicate 32 CheckFan) (checkFan hotExample))
       = Some False
   \<and> fanIsOn (heldExample\<lparr>fanChangeCount := 0\<rparr>)
   \<and> fanIsOn (checkFan (heldExample\<lparr>fanChangeCount := 0\<rparr>)) = False"
proof -
  have h: "\<not> fanIsOn hotExample" "fanIsOn (checkFan hotExample)"
    by code_simp+
  have r: "runEvents (coolingEvents @ replicate 31 CheckFan) (checkFan hotExample)
      = Some (heldExample\<lparr>fanChangeCount := 0\<rparr>)"
    by code_simp
  have k: "checks (coolingEvents @ replicate 31 CheckFan) = 31"
    by code_simp
  have e: "ISR 1023 (checkFan hotExample) = Some heldExample" "offEligible heldExample"
    by code_simp+
  have off: "map_option fanIsOn
      (runEvents (coolingEvents @ replicate 32 CheckFan) (checkFan hotExample)) = Some False"
    "fanIsOn (checkFan (heldExample\<lparr>fanChangeCount := 0\<rparr>)) = False"
    by code_simp+
  from fan_hysteresis [OF h r, of "checkFan hotExample" 1023 heldExample] k
  show ?thesis
    using h r k e off by (simp add: holdTicks)
qed

text \<open>
  Claim C7, as the code has it. When \<open>checkFan\<close> is invoked with the fan on and the
  difference of the sums in the off-eligible range (offset above reading, and the
  difference between the connected threshold and the off threshold), it decrements
  \<open>fanChangeCount\<close> when the counter is not zero, leaving the fan on, and switches the
  fan off when the counter is zero.
\<close>

theorem hold_counter_decrement:
  assumes "fanIsOn s" and "fanReadingSum s < fanOffsetSum s"
    and "thermistorConnectedThreshold s \<le> fanOffsetSum s - fanReadingSum s"
    and "fanOffsetSum s - fanReadingSum s \<le> thermistorOffThreshold s"
  shows "(fanChangeCount s \<noteq> 0 \<longrightarrow>
            fanChangeCount (checkFan s) = fanChangeCount s - 1 \<and> fanIsOn (checkFan s))
       \<and> (fanChangeCount s = 0 \<longrightarrow>
            fanChangeCount (checkFan s) = 0 \<and> \<not> fanIsOn (checkFan s))"
  using assms by (simp add: fan_after_check count_after_check offEligible_def)

theorem hold_counter_decrement_witness:
  "fanIsOn heldExample \<and> fanReadingSum heldExample < fanOffsetSum heldExample
   \<and> thermistorConnectedThreshold heldExample \<le> fanOffsetSum heldExample - fanReadingSum heldExample
   \<and> fanOffsetSum heldExample - fanReadingSum heldExample \<le> thermistorOffThreshold heldExample
   \<and> fanChangeCount heldExample \<noteq> 0
   \<and> fanChangeCount (checkFan heldExample) = fanChangeCount heldExample - 1
   \<and> fanIsOn (checkFan heldExample)
   \<and> fanChangeCount (checkFan (heldExample\<lparr>fanChangeCount := 0\<rparr>)) = 0
   \<and> fanIsOn (checkFan (heldExample\<lparr>fanChangeCount := 0\<rparr>)) = False"
proof -
  have h: "fanIsOn heldExample" "fanReadingSum heldExample < fanOffsetSum heldExample"
    "thermistorConnectedThreshold heldExample \<le> fanOffsetSum heldExample - fanReadingSum heldExample"
    "fanOffsetSum heldExample - fanReadingSum heldExample \<le> thermistorOffThreshold heldExample"
    by code_simp+
  have n: "fanChangeCount heldExample \<noteq> 0"
    by code_simp
  from h have z: "fanIsOn (heldExample\<lparr>fanChangeCount := 0\<rparr>)"
    "fanReadingSum (heldExample\<lparr>fanChangeCount := 0\<rparr>)
       < fanOffsetSum (heldExample\<lparr>fanChangeCount := 0\<rparr>)"
    "thermistorConnectedThreshold (heldExample\<lparr>fanChangeCount := 0\<rparr>)
       \<le> fanOffsetSum (heldExample\<lparr>fanChangeCount := 0\<rparr>)
          - fanReadingSum (heldExample\<lparr>fanChangeCount := 0\<rparr>)"
    "fanOffsetSum (heldExample\<lparr>fanChangeCount := 0\<rparr>)
       - fanReadingSum (heldExample\<lparr>fanChangeCount := 0\<rparr>)
       \<le> thermistorOffThreshold (heldExample\<lparr>fanChangeCount := 0\<rparr>)"
    by (simp_all add: fanIsOn_def)
  from hold_counter_decrement [OF h] hold_counter_decrement [OF z] n h show ?thesis
    by simp
qed

text \<open>
  The decrement does fire: with the fan on, the difference at 1245 between the
  thresholds 112 and 1248, and the counter at 31, \<open>checkFan\<close> leaves the counter at 30.
\<close>

theorem hold_counter_counterexample:
  "fanIsOn heldExample
   \<and> fanReadingSum heldExample < fanOffsetSum heldExample
   \<and> fanOffsetSum heldExample - fanReadingSum heldExample = 1245
   \<and> thermistorConnectedThreshold heldExample = 112
   \<and> thermistorOffThreshold heldExample = 1248
   \<and> fanChangeCount heldExample = 31
   \<and> fanChangeCount (checkFan heldExample) = 30"
  by code_simp

text \<open>
  Claim C8. When \<open>checkFan\<close> is invoked with the fan output off and the active sum
  \<open>fanReadingSum\<close> at least the offset sum \<open>fanOffsetSum\<close>, it turns the fan on,
  whatever the three thresholds are.
\<close>

theorem fan_disconnect_safety:
  assumes "\<not> fanIsOn s" and "fanReadingSum s \<ge> fanOffsetSum s"
  shows "fanIsOn (checkFan s)"
  using assms
  by (simp add: fanIsOn_bit checkFan_def bit_portSet PortAFanControlBit_def portTest_bit)

theorem fan_disconnect_safety_witness:
  "\<not> fanIsOn disconnectedExample
   \<and> fanReadingSum disconnectedExample \<ge> fanOffsetSum disconnectedExample
   \<and> fanIsOn (checkFan disconnectedExample)"
proof -
  have "\<not> fanIsOn disconnectedExample"
    by code_simp
  moreover have "fanReadingSum disconnectedExample \<ge> fanOffsetSum disconnectedExample"
    by code_simp
  ultimately show ?thesis
    using fan_disconnect_safety [of disconnectedExample] by simp
qed

text \<open>
  Claim C9. In every reachable state the two invariants hold, so each IR sum is at most
  1023 times \<open>cyclesAveragedIR\<close>, which is 8184, and each fan sum is at most 1023 times
  \<open>fanSamplesAveraged\<close>, which is 16368; both are below \<open>2 ^ 16\<close> and no sum wraps
  around. Every sample is at most 1023 after the mask, also after the exclusive or with
  0x0200 of the 1K variant.
\<close>

theorem no_overflow:
  assumes "reachable s"
  shows "irInvariant s \<and> fanInvariant s
       \<and> unat (nearSumIR s) \<le> 1023 * unat cyclesAveragedIR
       \<and> unat (farSumIR s) \<le> 1023 * unat cyclesAveragedIR
       \<and> unat (offSumIR s) \<le> 1023 * unat cyclesAveragedIR
       \<and> unat (fanReadingSum s) \<le> 1023 * unat fanSamplesAveraged
       \<and> unat (fanOffsetSum s) \<le> 1023 * unat fanSamplesAveraged
       \<and> 1023 * unat cyclesAveragedIR = 8184 \<and> 1023 * unat fanSamplesAveraged = 16368
       \<and> (16368 :: nat) < 2 ^ 16
       \<and> maskADC ADC \<le> 1023 \<and> biasFan (maskADC ADC) \<le> 1023 \<and> sampleOf ADC s \<le> 1023"
proof -
  from assms have inv: "isrInvariant s"
    by (rule reachable_inv)
  then have "unat (nearSumIR s) \<le> 1023 * 8" "unat (farSumIR s) \<le> 1023 * 8"
    "unat (offSumIR s) \<le> 1023 * 8" "unat (fanReadingSum s) \<le> 1023 * 16"
    "unat (fanOffsetSum s) \<le> 1023 * 16"
    by (auto simp: isrInvariant_rings ringInv_def dest: ringOK_le)
  with inv show ?thesis
    by (simp add: isrInvariant_def cyclesAveragedIR_def fanSamplesAveraged_def maskADC_le
        biasFan_le sampleOf_le)
qed

theorem no_overflow_witness:
  "reachable afterRun
   \<and> unat (nearSumIR afterRun) \<le> 8184 \<and> unat (farSumIR afterRun) \<le> 8184
   \<and> unat (offSumIR afterRun) \<le> 8184
   \<and> unat (fanReadingSum afterRun) \<le> 16368 \<and> unat (fanOffsetSum afterRun) \<le> 16368
   \<and> irInvariant afterRun \<and> fanInvariant afterRun"
  using no_overflow [OF reachable_afterRun, of 0] reachable_afterRun
  by (simp add: cyclesAveragedIR_def fanSamplesAveraged_def)


end
